theory Spec2Isabelle
  imports Complex_Main "HOL-Library.AList"
begin

section \<open>Data model (lib/types/netflix.ts)\<close>

text \<open>
  A JavaScript \<open>number\<close> is modelled as a real (no NaN, no rounding), a timestamp in
  milliseconds as an integer, an optional field as an \<open>option\<close>.  A JavaScript \<open>Map\<close>
  iterates in insertion order, so the maps of the services are association lists with
  distinct keys: \<open>AList.update\<close> overwrites in place and appends a new key at the end,
  as \<open>Map.set\<close> does.
\<close>

datatype ShowKind = Movie | Series

datatype ShowTypeOrAny = TMovie | TSeries | TAny

text \<open>
  \<open>NetflixShow\<close>, restricted to the fields the cache and the picker read.  \<open>posterW480\<close>
  is \<open>imageSet?.verticalPoster?.w480\<close>.
\<close>

record NetflixShow =
  show_id :: string
  title :: string
  overview :: string
  showKind :: ShowKind
  rating :: real
  netflixLink :: "string option"
  posterW480 :: "string option"

record CachePool =
  pool_shows :: "NetflixShow list"
  lastUpdate :: int
  pool_country :: string
  pool_showType :: ShowTypeOrAny

record CacheMetadata =
  totalShows :: nat
  poolSizes :: "(string \<times> nat) list"
  missCount :: nat
  hitCount :: nat

record RandomPickerConfig =
  country :: string
  showType :: "ShowTypeOrAny option"
  excludeRecent :: "bool option"
  minRating :: "real option"

record DiscoverResponse =
  resp_show :: NetflixShow
  resp_country :: string
  fromCache :: bool

record SearchResponse =
  resp_shows :: "NetflixShow list"
  hasMore :: bool
  nextCursor :: "string option"

datatype APIError = APIError string

datatype PickerError = NoContentFound string

text \<open>JavaScript truthiness of a string and of an optional string.\<close>

definition truthy :: "string \<Rightarrow> bool" where
  "truthy s = (s \<noteq> [])"

definition truthyOpt :: "string option \<Rightarrow> bool" where
  "truthyOpt x = (case x of None \<Rightarrow> False | Some s \<Rightarrow> truthy s)"

section \<open>The cache (lib/services/cache.ts)\<close>

record CacheConfig =
  poolSize :: int
  minPoolSize :: int
  ttlHours :: int

record NetPickCache =
  pools :: "(string \<times> CachePool) list"
  metadata :: CacheMetadata
  isRefreshing :: "string set"
  config :: CacheConfig

definition showKindName :: "ShowKind option \<Rightarrow> string" where
  "showKindName t = (case t of None \<Rightarrow> ''any'' | Some Movie \<Rightarrow> ''movie'' | Some Series \<Rightarrow> ''series'')"

definition getPoolKey :: "string \<Rightarrow> ShowKind option \<Rightarrow> string" where
  "getPoolKey c t = c @ ''-'' @ showKindName t"

definition isPoolExpired :: "NetPickCache \<Rightarrow> CachePool \<Rightarrow> int \<Rightarrow> bool" where
  "isPoolExpired c pool now = (now - lastUpdate pool > ttlHours (config c) * 60 * 60 * 1000)"

definition recordCacheHit :: "NetPickCache \<Rightarrow> NetPickCache" where
  "recordCacheHit c = c\<lparr>metadata := (metadata c)\<lparr>hitCount := hitCount (metadata c) + 1\<rparr>\<rparr>"

definition recordCacheMiss :: "NetPickCache \<Rightarrow> NetPickCache" where
  "recordCacheMiss c = c\<lparr>metadata := (metadata c)\<lparr>missCount := missCount (metadata c) + 1\<rparr>\<rparr>"

text \<open>
  The pools created at start-up by \<open>initializePools\<close>: one empty pool with timestamp 0
  for every supported country and each of the two show types.
\<close>

definition supportedCountries :: "string list" where
  "supportedCountries = [''us'', ''fr'', ''ca'', ''gb'', ''de'']"

definition initializePools :: "(string \<times> CachePool) list" where
  "initializePools =
     foldl (\<lambda>ps (c, t). AList.update (getPoolKey c (Some t))
              \<lparr>pool_shows = [], lastUpdate = 0, pool_country = c,
               pool_showType = (case t of Movie \<Rightarrow> TMovie | Series \<Rightarrow> TSeries)\<rparr> ps)
       [] (concat (map (\<lambda>c. [(c, Movie), (c, Series)]) supportedCountries))"

definition newCache :: "CacheConfig \<Rightarrow> NetPickCache" where
  "newCache cfg =
     \<lparr>pools = initializePools,
      metadata = \<lparr>totalShows = 0, poolSizes = [], missCount = 0, hitCount = 0\<rparr>,
      isRefreshing = {},
      config = cfg\<rparr>"

subsection \<open>refreshPool\<close>

text \<open>
  The upstream is an oracle: \<open>fetch n cursor\<close> is the answer of \<open>searchShows\<close> to the
  \<open>n\<close>-th request of this pass, made with \<open>cursor\<close>; \<open>Inl\<close> is a thrown \<open>APIError\<close>.
  The loop returns the collected shows together with the cursors it requested, in order.
\<close>

definition maxAttempts :: nat where
  "maxAttempts = 10"

definition validShow :: "NetflixShow \<Rightarrow> bool" where
  "validShow s =
     (truthyOpt (netflixLink s) \<and> truthy (title s) \<and> truthy (overview s) \<and> truthyOpt (posterW480 s))"

function collectShows ::
  "int \<Rightarrow> (nat \<Rightarrow> string option \<Rightarrow> APIError + SearchResponse) \<Rightarrow>
   NetflixShow list \<Rightarrow> string option \<Rightarrow> nat \<Rightarrow> string option list \<Rightarrow>
   NetflixShow list \<times> string option list"
where
  "collectShows psize fetch acc cursor attempts reqs =
     (if int (length acc) < psize \<and> attempts < maxAttempts then
        (case fetch attempts cursor of
           Inl err \<Rightarrow> (acc, reqs @ [cursor])
         | Inr result \<Rightarrow>
             if resp_shows result = [] then (acc, reqs @ [cursor])
             else
               let acc' = acc @ filter validShow (resp_shows result) in
               if \<not> hasMore result \<or> \<not> truthyOpt (nextCursor result) then (acc', reqs @ [cursor])
               else collectShows psize fetch acc' (nextCursor result) (attempts + 1) (reqs @ [cursor]))
      else (acc, reqs))"
  by pat_completeness auto
termination
  by (relation "measure (\<lambda>(psize, fetch, acc, cursor, attempts, reqs). maxAttempts - attempts)") auto

declare collectShows.simps [simp del]

text \<open>\<open>Array.prototype.slice(0, e)\<close>: a negative end counts from the end of the array.\<close>

definition slice0 :: "'a list \<Rightarrow> int \<Rightarrow> 'a list" where
  "slice0 xs e = (if 0 \<le> e then take (nat e) xs else take (length xs - nat (- e)) xs)"

definition showTypeOrAny :: "ShowKind option \<Rightarrow> ShowTypeOrAny" where
  "showTypeOrAny t = (case t of None \<Rightarrow> TAny | Some Movie \<Rightarrow> TMovie | Some Series \<Rightarrow> TSeries)"

text \<open>
  \<open>refreshPool\<close> in three parts: the synchronous entry (the in-flight check and the
  marker), the body after the loop (the pool update), and the \<open>finally\<close> block.
  \<open>refreshPool_enter\<close> is \<open>None\<close> when the call returns at once.
\<close>

definition refreshPool_enter :: "NetPickCache \<Rightarrow> string \<Rightarrow> NetPickCache option" where
  "refreshPool_enter c poolKey =
     (if poolKey \<in> isRefreshing c then None
      else Some (c\<lparr>isRefreshing := insert poolKey (isRefreshing c)\<rparr>))"

definition updatePool ::
  "NetPickCache \<Rightarrow> string \<Rightarrow> string \<Rightarrow> ShowKind option \<Rightarrow> NetflixShow list \<Rightarrow> int \<Rightarrow> NetPickCache"
where
  "updatePool c poolKey ctry t collected now =
     (if length collected > 0 then
        let pool = \<lparr>pool_shows = slice0 collected (poolSize (config c)), lastUpdate = now,
                    pool_country = ctry, pool_showType = showTypeOrAny t\<rparr>;
            ps = AList.update poolKey pool (pools c)
        in c\<lparr>pools := ps,
             metadata := (metadata c)
               \<lparr>poolSizes := AList.update poolKey (length (pool_shows pool)) (poolSizes (metadata c)),
                totalShows := foldl (\<lambda>sum p. sum + length (pool_shows p)) 0 (map snd ps)\<rparr>\<rparr>
      else c)"

definition refreshPool_finally :: "NetPickCache \<Rightarrow> string \<Rightarrow> NetPickCache" where
  "refreshPool_finally c poolKey = c\<lparr>isRefreshing := isRefreshing c - {poolKey}\<rparr>"

text \<open>
  A whole call, run without interleaving.  Every statement that can throw lies inside
  the inner \<open>try\<close> of the loop, so the outer \<open>catch\<close> is never entered and the call
  always resolves; the result is the new cache and the requests sent upstream.
\<close>

definition refreshPool ::
  "NetPickCache \<Rightarrow> string \<Rightarrow> string \<Rightarrow> ShowKind option \<Rightarrow>
   (nat \<Rightarrow> string option \<Rightarrow> APIError + SearchResponse) \<Rightarrow> int \<Rightarrow>
   NetPickCache \<times> string option list"
where
  "refreshPool c poolKey ctry t fetch now =
     (case refreshPool_enter c poolKey of
        None \<Rightarrow> (c, [])
      | Some c1 \<Rightarrow>
          let (collected, reqs) = collectShows (poolSize (config c1)) fetch [] None 0 []
          in (refreshPool_finally (updatePool c1 poolKey ctry t collected now) poolKey, reqs))"

subsection \<open>Reads\<close>

text \<open>
  A read that starts a refresh does not await it: the call runs \<open>refreshPool\<close> up to its
  first \<open>await\<close> (the first upstream request), which sets the in-flight marker, and
  the read goes on.  When the loop of \<open>refreshPool\<close> is not entered at all there is no
  \<open>await\<close>, and the started call runs to its end at once.  The read returns its value,
  the cache as it is when the read returns, and the key of the refresh that is then in
  flight because of it, if any.  \<open>r\<close> is the value of \<open>Math.random()\<close>.
\<close>

definition triggerRefresh ::
  "NetPickCache \<Rightarrow> string \<Rightarrow> string \<Rightarrow> ShowKind option \<Rightarrow> int \<Rightarrow> NetPickCache \<times> string option"
where
  "triggerRefresh c poolKey ctry t now =
     (if poolKey \<notin> isRefreshing c then
        (case refreshPool_enter c poolKey of
           None \<Rightarrow> (c, None)
         | Some c1 \<Rightarrow>
             if int (length ([] :: NetflixShow list)) < poolSize (config c1) \<and> 0 < maxAttempts
             then (c1, Some poolKey)
             else (refreshPool_finally (updatePool c1 poolKey ctry t [] now) poolKey, None))
      else (c, None))"

definition nthOpt :: "'a list \<Rightarrow> nat \<Rightarrow> 'a option" where
  "nthOpt xs i = (if i < length xs then Some (xs ! i) else None)"

definition getRandomShow ::
  "NetPickCache \<Rightarrow> string \<Rightarrow> ShowKind option \<Rightarrow> int \<Rightarrow> real \<Rightarrow>
   NetflixShow option \<times> NetPickCache \<times> string option"
where
  "getRandomShow c ctry t now r =
     (let poolKey = getPoolKey ctry t in
      case map_of (pools c) poolKey of
        None \<Rightarrow> (let (c2, started) = triggerRefresh (recordCacheMiss c) poolKey ctry t now in (None, c2, started))
      | Some pool \<Rightarrow>
          if isPoolExpired c pool now \<or> length (pool_shows pool) = 0 then
            (let (c2, started) = triggerRefresh (recordCacheMiss c) poolKey ctry t now in (None, c2, started))
          else
            let (c2, started) =
                  (if int (length (pool_shows pool)) < minPoolSize (config c)
                   then triggerRefresh c poolKey ctry t now else (c, None));
                randomIndex = nat \<lfloor>r * real (length (pool_shows pool))\<rfloor>
            in (nthOpt (pool_shows pool) randomIndex, recordCacheHit c2, started))"

text \<open>
  \<open>[...pool.shows].sort(() => Math.random() - 0.5)\<close> is some rearrangement of the pool;
  the random source is modelled by the list \<open>perm\<close> of the positions in the order they
  come out (a permutation of \<open>[0..<length xs]\<close>).
\<close>

definition shuffled :: "nat list \<Rightarrow> 'a list \<Rightarrow> 'a list" where
  "shuffled perm xs = map (\<lambda>i. xs ! i) (filter (\<lambda>i. i < length xs) perm)"

definition getRandomShows ::
  "NetPickCache \<Rightarrow> string \<Rightarrow> nat \<Rightarrow> ShowKind option \<Rightarrow> int \<Rightarrow> nat list \<Rightarrow> NetflixShow list"
where
  "getRandomShows c ctry count t now perm =
     (let poolKey = getPoolKey ctry t in
      case map_of (pools c) poolKey of
        None \<Rightarrow> []
      | Some pool \<Rightarrow>
          if isPoolExpired c pool now \<or> length (pool_shows pool) = 0 then []
          else
            let sh = shuffled perm (pool_shows pool)
            in take (min count (length sh)) sh)"

section \<open>The picker (RandomPickerService, the version that reads the cache)\<close>

text \<open>
  The service keeps the pick history of every user and a pick counter; the response-time
  statistics, which depend on the clock only, are left out.
\<close>

record RandomPickerService =
  recentPicks :: "(string \<times> NetflixShow list) list"
  totalPicks :: nat

definition maxRecentPicks :: nat where
  "maxRecentPicks = 20"

text \<open>
  What one call of \<open>selectRandomShow\<close> takes from outside: the cache and the clock at
  the time of its reads, the rearrangements of its (at most two) pool reads and the
  value of \<open>Math.random()\<close> of the weighted draw.
\<close>

record PickEnv =
  env_cache :: NetPickCache
  env_now :: int
  env_perm1 :: "nat list"
  env_perm2 :: "nat list"
  env_random :: real

subsection \<open>Weighted random selection\<close>

definition showWeight :: "NetflixShow \<Rightarrow> real" where
  "showWeight s =
     (let r = (if rating s = 0 then 50 else rating s);
          normalizedRating = max r 30
      in normalizedRating)"

text \<open>The \<open>for\<close> loop: the index of the first show whose cumulative weight reaches \<open>random\<close>.\<close>

fun scanWeights :: "real list \<Rightarrow> real \<Rightarrow> real \<Rightarrow> nat \<Rightarrow> nat option" where
  "scanWeights [] random currentWeight i = None"
| "scanWeights (w # ws) random currentWeight i =
     (let currentWeight' = currentWeight + w
      in if random \<le> currentWeight' then Some i
         else scanWeights ws random currentWeight' (i + 1))"

definition pickIndex :: "NetflixShow list \<Rightarrow> real \<Rightarrow> nat option" where
  "pickIndex cands u =
     (let weights = map showWeight cands;
          totalWeight = foldl (\<lambda>sum weight. sum + weight) 0 weights;
          random = u * totalWeight
      in scanWeights weights random 0 0)"

text \<open>
  \<open>u\<close> is the value of \<open>Math.random()\<close>.  On the empty array the fallback
  \<open>shows[shows.length - 1]\<close> is \<open>undefined\<close>, here \<open>None\<close>.
\<close>

definition weightedRandomSelection :: "NetflixShow list \<Rightarrow> real \<Rightarrow> NetflixShow option" where
  "weightedRandomSelection cands u =
     (case pickIndex cands u of
        Some i \<Rightarrow> nthOpt cands i
      | None \<Rightarrow> (if cands = [] then None else Some (last cands)))"

subsection \<open>Pick history\<close>

definition getUserRecentPicks :: "RandomPickerService \<Rightarrow> string \<Rightarrow> NetflixShow list" where
  "getUserRecentPicks st userId = (case map_of (recentPicks st) userId of None \<Rightarrow> [] | Some picks \<Rightarrow> picks)"

definition cleanupOldPicks ::
  "(string \<times> NetflixShow list) list \<Rightarrow> (string \<times> NetflixShow list) list"
where
  "cleanupOldPicks m =
     (if length m > 1000 then
        let entries = take 500 m
        in foldl (\<lambda>acc (userId, picks). AList.update userId picks acc) [] entries
      else m)"

text \<open>
  The picker that asks the upstream directly (src/lib/services/randomPicker.ts) has the
  same function with the bounds 100 and 50; its \<open>weightedRandomSelection\<close> is the one
  above, word for word.
\<close>

definition cleanupOldPicks_direct ::
  "(string \<times> NetflixShow list) list \<Rightarrow> (string \<times> NetflixShow list) list"
where
  "cleanupOldPicks_direct m =
     (if length m > 100 then
        let entries = take 50 m
        in foldl (\<lambda>acc (userId, picks). AList.update userId picks acc) [] entries
      else m)"

definition trackUserPick :: "RandomPickerService \<Rightarrow> string \<Rightarrow> NetflixShow \<Rightarrow> RandomPickerService" where
  "trackUserPick st userId s =
     (let m1 = (if map_of (recentPicks st) userId = None
                then AList.update userId [] (recentPicks st) else recentPicks st);
          userPicks = s # (case map_of m1 userId of None \<Rightarrow> [] | Some picks \<Rightarrow> picks);
          userPicks' = (if length userPicks > maxRecentPicks
                        then take maxRecentPicks userPicks else userPicks);
          m2 = AList.update userId userPicks' m1
      in st\<lparr>recentPicks := cleanupOldPicks m2\<rparr>)"

subsection \<open>Selection and discovery\<close>

definition qualityShow :: "NetflixShow \<Rightarrow> bool" where
  "qualityShow s =
     (truthy (title s) \<and> truthy (overview s) \<and> truthyOpt (netflixLink s) \<and>
      truthyOpt (posterW480 s) \<and> rating s > 0)"

definition getCandidates :: "RandomPickerConfig \<Rightarrow> PickEnv \<Rightarrow> NetflixShow list" where
  "getCandidates cfg env =
     (if showType cfg = Some TAny \<or> showType cfg = None then
        (let movies = getRandomShows (env_cache env) (country cfg) 10 (Some Movie) (env_now env) (env_perm1 env);
             series = getRandomShows (env_cache env) (country cfg) 10 (Some Series) (env_now env) (env_perm2 env)
         in movies @ series)
      else
        getRandomShows (env_cache env) (country cfg) 20
          (if showType cfg = Some TMovie then Some Movie else Some Series) (env_now env) (env_perm1 env))"

definition applyFilters ::
  "RandomPickerService \<Rightarrow> RandomPickerConfig \<Rightarrow> string option \<Rightarrow> NetflixShow list \<Rightarrow> NetflixShow list"
where
  "applyFilters st cfg userId candidates =
     (let exclude = (case excludeRecent cfg of None \<Rightarrow> True | Some b \<Rightarrow> b);
          f1 = (case minRating cfg of
                  None \<Rightarrow> candidates
                | Some m \<Rightarrow> if m = 0 then candidates else filter (\<lambda>s. rating s \<ge> m) candidates);
          f2 = (case userId of
                  None \<Rightarrow> f1
                | Some uid \<Rightarrow>
                    if exclude \<and> truthy uid then
                      (let recentIds = set (map show_id (getUserRecentPicks st uid))
                       in filter (\<lambda>s. show_id s \<notin> recentIds) f1)
                    else f1)
      in filter qualityShow f2)"

definition selectRandomShow ::
  "RandomPickerService \<Rightarrow> RandomPickerConfig \<Rightarrow> string option \<Rightarrow> PickEnv \<Rightarrow> NetflixShow option"
where
  "selectRandomShow st cfg userId env =
     (let candidates = getCandidates cfg env in
      if length candidates = 0 then None
      else
        let filteredCandidates = applyFilters st cfg userId candidates in
        if length filteredCandidates = 0 then None
        else weightedRandomSelection filteredCandidates (env_random env))"

definition buildResponse ::
  "RandomPickerService \<Rightarrow> NetflixShow \<Rightarrow> string \<Rightarrow> bool \<Rightarrow> DiscoverResponse \<times> RandomPickerService"
where
  "buildResponse st s ctry fc =
     (\<lparr>resp_show = s, resp_country = ctry, fromCache = fc\<rparr>, st\<lparr>totalPicks := totalPicks st + 1\<rparr>)"

definition noContentMessage :: "RandomPickerConfig \<Rightarrow> string" where
  "noContentMessage cfg =
     ''No Netflix '' @
     (case showType cfg of None \<Rightarrow> ''content'' | Some TMovie \<Rightarrow> ''movie''
        | Some TSeries \<Rightarrow> ''series'' | Some TAny \<Rightarrow> ''any'') @
     '' found for '' @ country cfg"

text \<open>
  \<open>discover\<close>: \<open>env1\<close> serves the first selection, \<open>env2\<close> the fallback selection.
  A thrown \<open>Error\<close> is \<open>Inl\<close>; the service is returned as the call leaves it.
\<close>

definition discover ::
  "RandomPickerService \<Rightarrow> RandomPickerConfig \<Rightarrow> string option \<Rightarrow> PickEnv \<Rightarrow> PickEnv \<Rightarrow>
   (PickerError + DiscoverResponse) \<times> RandomPickerService"
where
  "discover st cfg userId env1 env2 =
     (case selectRandomShow st cfg userId env1 of
        None \<Rightarrow>
          (case selectRandomShow st (cfg\<lparr>excludeRecent := Some False, minRating := None\<rparr>) userId env2 of
             None \<Rightarrow> (Inl (NoContentFound (noContentMessage cfg)), st)
           | Some fallbackShow \<Rightarrow>
               (let (resp, st') = buildResponse st fallbackShow (country cfg) False in (Inr resp, st')))
      | Some s \<Rightarrow>
          (let st1 = (case userId of
                        None \<Rightarrow> st
                      | Some uid \<Rightarrow> if truthy uid then trackUserPick st uid s else st);
               (resp, st') = buildResponse st1 s (country cfg) True
           in (Inr resp, st')))"

section \<open>Sequences of calls\<close>

text \<open>A run of \<open>discover\<close> calls of one user, each with its configuration and environments.\<close>

fun discoverCalls ::
  "RandomPickerService \<Rightarrow> string \<Rightarrow> (RandomPickerConfig \<times> PickEnv \<times> PickEnv) list \<Rightarrow>
   (PickerError + DiscoverResponse) list \<times> RandomPickerService"
where
  "discoverCalls st u [] = ([], st)"
| "discoverCalls st u ((cfg, env1, env2) # calls) =
     (let (r, st1) = discover st cfg (Some u) env1 env2;
          (rs, st2) = discoverCalls st1 u calls
      in (r # rs, st2))"

subsection \<open>Interleaved refreshes\<close>

text \<open>
  Calls of \<open>refreshPool\<close> are asynchronous: a call runs its entry at once, and its loop
  and its update later, while other calls and reads run in between.  The loop itself
  touches no field of the cache, so a call is two events: its start, and its
  completion (the loop, the update and the \<open>finally\<close> block).  A read through
  \<open>getRandomShow\<close> is an event too, since it may start a refresh.  Beside the cache the
  system records the calls in flight and the requests sent upstream, with their key.
\<close>

datatype CacheEvent =
    StartRefresh string string "ShowKind option"
  | CompleteRefresh string "nat \<Rightarrow> string option \<Rightarrow> APIError + SearchResponse" int
  | ReadShow string "ShowKind option" int real

record CacheSys =
  sys_cache :: NetPickCache
  inFlight :: "(string \<times> string \<times> ShowKind option) list"
  upstreamLog :: "(string \<times> string option) list"

fun cacheStep :: "CacheSys \<Rightarrow> CacheEvent \<Rightarrow> CacheSys" where
  "cacheStep sys (StartRefresh poolKey ctry t) =
     (case refreshPool_enter (sys_cache sys) poolKey of
        None \<Rightarrow> sys
      | Some c1 \<Rightarrow> sys\<lparr>sys_cache := c1, inFlight := inFlight sys @ [(poolKey, ctry, t)]\<rparr>)"
| "cacheStep sys (CompleteRefresh poolKey fetch now) =
     (case find (\<lambda>task. fst task = poolKey) (inFlight sys) of
        None \<Rightarrow> sys
      | Some task \<Rightarrow>
          let c = sys_cache sys;
              (collected, reqs) = collectShows (poolSize (config c)) fetch [] None 0 []
          in sys\<lparr>sys_cache :=
                   refreshPool_finally
                     (updatePool c poolKey (fst (snd task)) (snd (snd task)) collected now) poolKey,
                 inFlight := remove1 task (inFlight sys),
                 upstreamLog := upstreamLog sys @ map (Pair poolKey) reqs\<rparr>)"
| "cacheStep sys (ReadShow ctry t now r) =
     (let (res, c2, started) = getRandomShow (sys_cache sys) ctry t now r
      in sys\<lparr>sys_cache := c2,
             inFlight := (case started of
                            None \<Rightarrow> inFlight sys
                          | Some poolKey \<Rightarrow> inFlight sys @ [(poolKey, ctry, t)])\<rparr>)"

definition cacheRun :: "CacheSys \<Rightarrow> CacheEvent list \<Rightarrow> CacheSys" where
  "cacheRun sys evs = foldl cacheStep sys evs"

definition initialSys :: "CacheConfig \<Rightarrow> CacheSys" where
  "initialSys cfg = \<lparr>sys_cache = newCache cfg, inFlight = [], upstreamLog = []\<rparr>"

text \<open>The pools of a cache never hold more shows than the configured pool size.\<close>

definition poolsBounded :: "NetPickCache \<Rightarrow> bool" where
  "poolsBounded c \<longleftrightarrow> list_all (\<lambda>p. int (length (pool_shows p)) \<le> poolSize (config c)) (map snd (pools c))"

text \<open>
  The marked keys are the keys of the calls in flight, and no two calls in flight have
  the same key.
\<close>

definition flightInv :: "CacheSys \<Rightarrow> bool" where
  "flightInv sys \<longleftrightarrow>
     isRefreshing (sys_cache sys) = fst ` set (inFlight sys) \<and> distinct (map fst (inFlight sys))"

subsection \<open>Passes of the refresh loop\<close>

text \<open>
  A pass of the loop of \<open>refreshPool\<close>, described from outside by the pages it read.
  \<open>validTitles\<close> are the titles of the pages that pass the filter of the loop, in the
  order of the pages; \<open>cursorBefore pages i\<close> is the cursor of request \<open>i\<close>: none for
  the first request, the cursor announced by the page before for the others.
  \<open>pagesFetched\<close> says that \<open>pages\<close> are the answers to the first requests of a pass:
  each request was made below the attempt ceiling and with room left in the pool, was
  answered by its page, the page held at least one record, and every page but the last
  announced a further page.  \<open>passStops\<close> says that the pass ends after \<open>pages\<close>: the
  last page announced no further page, or the pool size or the attempt ceiling is
  reached, or the next request fails, or it is answered by a page without records.
\<close>

definition validTitles :: "SearchResponse list \<Rightarrow> NetflixShow list" where
  "validTitles pages = concat (map (\<lambda>r. filter validShow (resp_shows r)) pages)"

definition cursorBefore :: "SearchResponse list \<Rightarrow> nat \<Rightarrow> string option" where
  "cursorBefore pages i = (if i = 0 then None else nextCursor (pages ! (i - 1)))"

definition pagesFetched ::
  "int \<Rightarrow> (nat \<Rightarrow> string option \<Rightarrow> APIError + SearchResponse) \<Rightarrow> SearchResponse list \<Rightarrow> bool"
where
  "pagesFetched psize fetch pages \<longleftrightarrow>
     (\<forall>i<length pages.
        i < maxAttempts \<and>
        int (length (validTitles (take i pages))) < psize \<and>
        fetch i (cursorBefore pages i) = Inr (pages ! i) \<and>
        resp_shows (pages ! i) \<noteq> [] \<and>
        (Suc i < length pages \<longrightarrow> hasMore (pages ! i) \<and> truthyOpt (nextCursor (pages ! i))))"

definition passStops ::
  "int \<Rightarrow> (nat \<Rightarrow> string option \<Rightarrow> APIError + SearchResponse) \<Rightarrow> SearchResponse list \<Rightarrow> bool"
where
  "passStops psize fetch pages \<longleftrightarrow>
     (pages \<noteq> [] \<and> (\<not> hasMore (last pages) \<or> \<not> truthyOpt (nextCursor (last pages)))) \<or>
     \<not> int (length (validTitles pages)) < psize \<or>
     \<not> length pages < maxAttempts \<or>
     (\<exists>e. fetch (length pages) (cursorBefore pages (length pages)) = Inl e) \<or>
     (\<exists>r. fetch (length pages) (cursorBefore pages (length pages)) = Inr r \<and> resp_shows r = [])"

section \<open>Example data\<close>

text \<open>A show with complete data, a given id and a given rating.\<close>

definition mkShow :: "string \<Rightarrow> real \<Rightarrow> NetflixShow" where
  "mkShow i r = \<lparr>show_id = i, title = ''T'', overview = ''O'', showKind = Movie, rating = r,
                 netflixLink = Some ''L'', posterW480 = Some ''P''\<rparr>"

text \<open>The three candidates rated 90, 60 and 10.\<close>

definition exampleCands :: "NetflixShow list" where
  "exampleCands = [mkShow ''A'' 90, mkShow ''B'' 60, mkShow ''C'' 10]"

text \<open>
  A cache holding one fresh pool, the movies of \<open>us\<close>, a selection environment reading
  it, a configuration asking for movies of \<open>us\<close>, and a picker without history.
\<close>

definition exampleConfig :: CacheConfig where
  "exampleConfig = \<lparr>poolSize = 200, minPoolSize = 50, ttlHours = 6\<rparr>"

definition exampleCache :: "NetflixShow list \<Rightarrow> NetPickCache" where
  "exampleCache xs =
     \<lparr>pools = [(''us-movie'', \<lparr>pool_shows = xs, lastUpdate = 1000, pool_country = ''us'',
                               pool_showType = TMovie\<rparr>)],
      metadata = \<lparr>totalShows = length xs, poolSizes = [(''us-movie'', length xs)],
                  missCount = 0, hitCount = 0\<rparr>,
      isRefreshing = {},
      config = exampleConfig\<rparr>"

definition exampleEnv :: "NetflixShow list \<Rightarrow> nat list \<Rightarrow> real \<Rightarrow> PickEnv" where
  "exampleEnv xs perm u =
     \<lparr>env_cache = exampleCache xs, env_now = 2000, env_perm1 = perm, env_perm2 = [], env_random = u\<rparr>"

definition movieConfig :: "real option \<Rightarrow> RandomPickerConfig" where
  "movieConfig m = \<lparr>country = ''us'', showType = Some TMovie, excludeRecent = Some True, minRating = m\<rparr>"

definition emptyService :: RandomPickerService where
  "emptyService = \<lparr>recentPicks = [], totalPicks = 0\<rparr>"

text \<open>
  A pool of 21 movies with complete data and distinct ids, read in pool order, and a
  picker in which user \<open>u1\<close> has been shown the first 20 of them, \<open>a\<close> last.
\<close>

definition pool21 :: "NetflixShow list" where
  "pool21 = map (\<lambda>c. mkShow [c] 80) ''abcdefghijklmnopqrstu''"

definition perm21 :: "nat list" where
  "perm21 = [0, 1, 2, 3, 4, 5, 6, 7, 8, 9, 10, 11, 12, 13, 14, 15, 16, 17, 18, 19, 20]"

definition busyService :: RandomPickerService where
  "busyService = \<lparr>recentPicks = [(''u1'', take 20 pool21)], totalPicks = 20\<rparr>"

text \<open>A history map of \<open>n\<close> users, entered in the order 0, 1, ..., each with one pick.\<close>

definition userName :: "nat \<Rightarrow> string" where
  "userName i = replicate (Suc i) (CHR ''u'')"

definition manyUsers :: "nat \<Rightarrow> (string \<times> NetflixShow list) list" where
  "manyUsers n = map (\<lambda>i. (userName i, [mkShow (userName i) 80])) [0..<n]"

text \<open>
  A picker in which user \<open>u1\<close> has just been shown \<open>X\<close>, and an environment whose pool
  holds \<open>X\<close> and \<open>Y\<close>.
\<close>

definition onePickService :: RandomPickerService where
  "onePickService = \<lparr>recentPicks = [(''u1'', [mkShow ''X'' 80])], totalPicks = 1\<rparr>"

definition xyEnv :: PickEnv where
  "xyEnv = exampleEnv [mkShow ''X'' 80, mkShow ''Y'' 80] [0, 1] 0"

text \<open>An upstream that answers the first request with two movies and fails afterwards.\<close>

definition fetchThenFail :: "nat \<Rightarrow> string option \<Rightarrow> APIError + SearchResponse" where
  "fetchThenFail n cursor =
     (if n = 0 then Inr \<lparr>resp_shows = [mkShow ''A'' 90, mkShow ''B'' 60], hasMore = True,
                         nextCursor = Some ''c1''\<rparr>
      else Inl (APIError ''503''))"

text \<open>An upstream that is down, and a configuration with pools of one show.\<close>

definition fetchDown :: "nat \<Rightarrow> string option \<Rightarrow> APIError + SearchResponse" where
  "fetchDown n cursor = Inl (APIError ''503'')"

definition smallConfig :: CacheConfig where
  "smallConfig = \<lparr>poolSize = 1, minPoolSize = 1, ttlHours = 6\<rparr>"

text \<open>
  A show without a link, and an upstream that answers two requests, the second page
  with one valid and one invalid title, and fails at the third.
\<close>

definition invalidShow :: "string \<Rightarrow> real \<Rightarrow> NetflixShow" where
  "invalidShow i r = (mkShow i r)\<lparr>netflixLink := None\<rparr>"

definition pageOne :: SearchResponse where
  "pageOne = \<lparr>resp_shows = [mkShow ''A'' 90, mkShow ''B'' 60], hasMore = True, nextCursor = Some ''c1''\<rparr>"

definition pageTwo :: SearchResponse where
  "pageTwo = \<lparr>resp_shows = [mkShow ''C'' 70, invalidShow ''D'' 70], hasMore = True,
              nextCursor = Some ''c2''\<rparr>"

definition fetchTwoThenFail :: "nat \<Rightarrow> string option \<Rightarrow> APIError + SearchResponse" where
  "fetchTwoThenFail n cursor =
     (if n = 0 \<and> cursor = None then Inr pageOne
      else if n = 1 \<and> cursor = Some ''c1'' then Inr pageTwo
      else Inl (APIError ''503''))"

text \<open>A pool read after its time to live (six hours past its last update at 1000).\<close>

definition expiredEnv :: PickEnv where
  "expiredEnv = (exampleEnv [mkShow ''X'' 80] [0] 0)\<lparr>env_now := 21601001\<rparr>"

section \<open>Properties of the weighted selection\<close>

lemma foldl_plus_sum_list: "foldl (\<lambda>sum weight. sum + weight) a ws = a + sum_list (ws :: real list)"
  by (induction ws arbitrary: a) (simp_all add: add.assoc)

lemma showWeight_ge: "30 \<le> showWeight s"
  by (simp add: showWeight_def Let_def)

lemma showWeight_unrated: "rating s = 0 \<Longrightarrow> showWeight s = 50"
  by (simp add: showWeight_def Let_def)

lemma showWeight_rated: "rating s > 0 \<Longrightarrow> showWeight s = max (rating s) 30"
  by (simp add: showWeight_def Let_def)

lemma scanWeights_range:
  "scanWeights ws r cw i = Some j \<Longrightarrow> i \<le> j \<and> j < i + length ws"
proof (induction ws arbitrary: cw i)
  case Nil
  then show ?case by simp
next
  case (Cons w ws)
  show ?case
  proof (cases "r \<le> cw + w")
    case True
    with Cons.prems show ?thesis by (simp add: Let_def)
  next
    case False
    with Cons.prems have "scanWeights ws r (cw + w) (Suc i) = Some j" by (simp add: Let_def)
    from Cons.IH[OF this] show ?thesis by simp
  qed
qed

lemma scanWeights_None:
  "scanWeights ws r cw i = None \<longleftrightarrow> (\<forall>k<length ws. cw + sum_list (take (Suc k) ws) < r)"
proof (induction ws arbitrary: cw i)
  case Nil
  then show ?case by simp
next
  case (Cons w ws)
  show ?case
    apply (simp add: Let_def Cons.IH)
    apply (auto simp: less_Suc_eq_0_disj add.assoc)
    done
qed

lemma scanWeights_Some:
  assumes "\<forall>w\<in>set ws. 0 < w"
  shows "scanWeights ws r cw i = Some (i + k) \<longleftrightarrow>
           k < length ws \<and> r \<le> cw + sum_list (take (Suc k) ws) \<and> (k = 0 \<or> cw + sum_list (take k ws) < r)"
  using assms
proof (induction ws arbitrary: cw i k)
  case Nil
  then show ?case by simp
next
  case (Cons w ws)
  show ?case
  proof (cases k)
    case 0
    then show ?thesis
      using scanWeights_range[of ws r "cw + w" "Suc i" i]
      by (auto simp: Let_def)
  next
    case (Suc k')
    have pos: "\<forall>w\<in>set ws. 0 < w" "0 < w" using Cons.prems by auto
    have mono: "0 \<le> sum_list (take k' ws)"
      using pos(1) by (intro sum_list_nonneg) (auto dest!: in_set_takeD intro: less_imp_le)
    have ih: "scanWeights ws r (cw + w) (Suc i) = Some (Suc i + k') \<longleftrightarrow>
           k' < length ws \<and> r \<le> (cw + w) + sum_list (take (Suc k') ws) \<and> (k' = 0 \<or> (cw + w) + sum_list (take k' ws) < r)"
      by (rule Cons.IH[OF pos(1)])
    show ?thesis
      using ih mono pos(2) Suc
      by (auto simp: Let_def add.assoc)
  qed
qed

lemma sum_list_take_le:
  "\<forall>w\<in>set ws. 0 \<le> w \<Longrightarrow> sum_list (take n ws) \<le> sum_list (ws :: real list)"
proof (induction ws arbitrary: n)
  case Nil
  then show ?case by simp
next
  case (Cons w ws)
  have nn: "0 \<le> sum_list ws" using Cons.prems by (intro sum_list_nonneg) auto
  show ?case
  proof (cases n)
    case 0
    then show ?thesis using nn Cons.prems by simp
  next
    case (Suc m)
    have "sum_list (take m ws) \<le> sum_list ws" using Cons.prems by (intro Cons.IH) auto
    then show ?thesis using Suc by simp
  qed
qed

lemma pickIndex_bound: "pickIndex cands u = Some i \<Longrightarrow> i < length cands"
  using scanWeights_range[of "map showWeight cands" _ 0 0 i]
  by (simp add: pickIndex_def Let_def)

lemma pickIndex_overshoot:
  assumes "u * sum_list (map showWeight cands) > sum_list (map showWeight cands)"
  shows "pickIndex cands u = None"
proof -
  have nn: "\<forall>w\<in>set (map showWeight cands). 0 \<le> w"
    using showWeight_ge by (auto intro: order_trans[of 0 30])
  have "\<forall>k<length (map showWeight cands).
          0 + sum_list (take (Suc k) (map showWeight cands)) < u * sum_list (map showWeight cands)"
    using sum_list_take_le[OF nn] assms by (auto intro: le_less_trans)
  then show ?thesis
    unfolding pickIndex_def Let_def foldl_plus_sum_list scanWeights_None by simp
qed

lemma totalWeight_pos: "cands \<noteq> [] \<Longrightarrow> 0 < sum_list (map showWeight cands)"
proof (induction cands)
  case Nil
  then show ?case by simp
next
  case (Cons s cands)
  have "0 \<le> sum_list (map showWeight cands)"
    using showWeight_ge by (intro sum_list_nonneg) (auto intro: order_trans[of 0 30])
  moreover have "0 < showWeight s" using showWeight_ge[of s] by simp
  ultimately show ?case by simp
qed

lemma pickIndex_in_unit:
  assumes "cands \<noteq> []" "0 \<le> u" "u < 1"
  shows "\<exists>i<length cands. pickIndex cands u = Some i"
proof (cases "pickIndex cands u")
  case None
  let ?ws = "map showWeight cands"
  have len: "length cands - 1 < length ?ws" using assms(1) by simp
  from None have "\<forall>k<length ?ws. 0 + sum_list (take (Suc k) ?ws) < u * sum_list ?ws"
    unfolding pickIndex_def Let_def foldl_plus_sum_list scanWeights_None by simp
  with len have "sum_list (take (Suc (length cands - 1)) ?ws) < u * sum_list ?ws"
    by fastforce
  moreover have "Suc (length cands - 1) = length cands" using assms(1) by simp
  ultimately have "sum_list ?ws < u * sum_list ?ws" by simp
  moreover have "u * sum_list ?ws \<le> 1 * sum_list ?ws"
    using assms(3) totalWeight_pos[OF assms(1)] by (intro mult_right_mono) auto
  ultimately show ?thesis by simp
next
  case (Some i)
  then show ?thesis using pickIndex_bound by blast
qed

lemma pickIndex_interval:
  assumes "i < length cands"
  shows "pickIndex cands u = Some i \<longleftrightarrow>
           (i = 0 \<or> sum_list (map showWeight (take i cands)) < u * sum_list (map showWeight cands)) \<and>
           u * sum_list (map showWeight cands) \<le> sum_list (map showWeight (take i cands)) + showWeight (cands ! i)"
proof -
  let ?ws = "map showWeight cands"
  have pos: "\<forall>w\<in>set ?ws. 0 < w"
    using showWeight_ge by (auto intro: less_le_trans[of 0 30])
  have "take (Suc i) cands = take i cands @ [cands ! i]"
    using assms by (simp add: take_Suc_conv_app_nth)
  then have suc: "sum_list (take (Suc i) ?ws) = sum_list (map showWeight (take i cands)) + showWeight (cands ! i)"
    by (simp add: take_map)
  have "pickIndex cands u = Some i \<longleftrightarrow> scanWeights ?ws (u * sum_list ?ws) 0 0 = Some (0 + i)"
    by (simp add: pickIndex_def Let_def foldl_plus_sum_list)
  also have "\<dots> \<longleftrightarrow> i < length ?ws \<and> u * sum_list ?ws \<le> 0 + sum_list (take (Suc i) ?ws) \<and>
                     (i = 0 \<or> 0 + sum_list (take i ?ws) < u * sum_list ?ws)"
    by (rule scanWeights_Some[OF pos])
  finally show ?thesis using assms suc by (auto simp: take_map)
qed

lemma weightedRandomSelection_mem:
  assumes "cands \<noteq> []"
  shows "\<exists>s\<in>set cands. weightedRandomSelection cands u = Some s"
proof (cases "pickIndex cands u")
  case None
  then show ?thesis using assms by (simp add: weightedRandomSelection_def)
next
  case (Some i)
  then have "i < length cands" by (rule pickIndex_bound)
  with Some show ?thesis by (auto simp: weightedRandomSelection_def nthOpt_def)
qed


text \<open>
  C10.  On every non-empty list the weighted selection returns an element of the list,
  whatever the drawn value is; when the draw exceeds the total accumulated weight, no
  cumulative weight reaches it and the last element of the list is returned.
\<close>

theorem weightedRandomSelection_total:
  "cands \<noteq> [] \<Longrightarrow>
     (\<exists>s\<in>set cands. weightedRandomSelection cands u = Some s) \<and>
     (u * foldl (\<lambda>sum weight. sum + weight) 0 (map showWeight cands)
        > foldl (\<lambda>sum weight. sum + weight) 0 (map showWeight cands)
      \<longrightarrow> weightedRandomSelection cands u = Some (last cands))"
  using weightedRandomSelection_mem[of cands u] pickIndex_overshoot[of cands u]
  by (simp add: foldl_plus_sum_list weightedRandomSelection_def)

theorem weightedRandomSelection_total_witness:
  "[mkShow ''a'' 90, mkShow ''b'' 60] \<noteq> [] \<and>
   weightedRandomSelection [mkShow ''a'' 90, mkShow ''b'' 60] 2 = Some (mkShow ''b'' 60) \<and>
   weightedRandomSelection [mkShow ''a'' 90, mkShow ''b'' 60] (1/2) = Some (mkShow ''a'' 90)"
  using weightedRandomSelection_total[of "[mkShow ''a'' 90, mkShow ''b'' 60]" 2]
  by (simp add: mkShow_def showWeight_def weightedRandomSelection_def pickIndex_def nthOpt_def Let_def)

lemma sum_list_take_mono:
  assumes "\<forall>w\<in>set ws. 0 \<le> w" "n \<le> m"
  shows "sum_list (take n ws) \<le> sum_list (take m (ws :: real list))"
proof -
  have "take n ws = take n (take m ws)" using assms(2) by (simp add: min_def)
  moreover have "\<forall>w\<in>set (take m ws). 0 \<le> w" using assms(1) by (auto dest: in_set_takeD)
  ultimately show ?thesis using sum_list_take_le[of "take m ws" n] by simp
qed

lemma pickIndex_first:
  assumes "i < length cands"
  shows "pickIndex cands u = Some i \<longleftrightarrow>
           u * sum_list (map showWeight cands) \<le> sum_list (map showWeight (take (Suc i) cands)) \<and>
           (\<forall>j<i. sum_list (map showWeight (take (Suc j) cands)) < u * sum_list (map showWeight cands))"
proof -
  let ?r = "u * sum_list (map showWeight cands)"
  have nn: "\<forall>w\<in>set (map showWeight cands). 0 \<le> w"
    using showWeight_ge by (auto intro: order_trans[of 0 30])
  have suc: "sum_list (map showWeight (take (Suc i) cands))
               = sum_list (map showWeight (take i cands)) + showWeight (cands ! i)"
    using assms by (simp add: take_Suc_conv_app_nth)
  have low: "(i = 0 \<or> sum_list (map showWeight (take i cands)) < ?r) \<longleftrightarrow>
             (\<forall>j<i. sum_list (map showWeight (take (Suc j) cands)) < ?r)"
  proof (cases i)
    case 0
    then show ?thesis by simp
  next
    case (Suc k)
    have "sum_list (map showWeight (take (Suc j) cands)) \<le> sum_list (map showWeight (take i cands))"
      if "j < i" for j
      using sum_list_take_mono[OF nn, of "Suc j" i] that by (simp add: take_map)
    then show ?thesis using Suc by (auto intro: le_less_trans)
  qed
  show ?thesis
    unfolding pickIndex_interval[OF assms] suc low by auto
qed

lemma showWeights_rated:
  "\<forall>s\<in>set cands. 0 < rating s \<Longrightarrow> map showWeight cands = map (\<lambda>s. max (rating s) 30) cands"
  by (simp add: showWeight_rated)

lemma pickIndex_fraction:
  assumes "i < length cands"
  shows "pickIndex cands u = Some i \<longleftrightarrow>
           (i = 0 \<or> sum_list (map showWeight (take i cands)) / sum_list (map showWeight cands) < u) \<and>
           u \<le> sum_list (map showWeight (take i cands)) / sum_list (map showWeight cands)
                 + showWeight (cands ! i) / sum_list (map showWeight cands)"
proof -
  have "cands \<noteq> []" using assms by auto
  then have T: "0 < sum_list (map showWeight cands)" by (rule totalWeight_pos)
  show ?thesis
    unfolding pickIndex_interval[OF assms] add_divide_distrib[symmetric]
    using T by (simp add: pos_divide_less_eq pos_le_divide_eq)
qed

lemma pickIndex_selects:
  assumes "cands \<noteq> []" "0 \<le> u" "u < 1"
  shows "\<exists>i<length cands. pickIndex cands u = Some i \<and> weightedRandomSelection cands u = Some (cands ! i)"
proof -
  from pickIndex_in_unit[OF assms] obtain i where "i < length cands" "pickIndex cands u = Some i"
    by blast
  then show ?thesis by (auto simp: weightedRandomSelection_def nthOpt_def)
qed

text \<open>
  C2.  The lists passed to the weighted selection are those that passed the quality
  filter of \<open>selectRandomShow\<close>, so every rating in them is positive.  On such a
  non-empty list the weight of a candidate is its rating floored at 30; a draw
  \<open>u\<close> of \<open>Math.random()\<close> selects the first candidate whose cumulative weight is at
  least \<open>u\<close> times the total weight; so candidate \<open>i\<close> is selected exactly for the draws
  of an interval whose length is the floored rating of \<open>i\<close> divided by the sum of the
  floored ratings.  For the ratings 90, 60, 10 (evaluated below) the weights are 90, 60,
  30 and the first candidate is selected exactly on \<open>[0, 1/2]\<close>.
\<close>

theorem weighted_selection_proportional:
  assumes "cands \<noteq> []" and "\<forall>s\<in>set cands. 0 < rating s"
  shows
    "map showWeight cands = map (\<lambda>s. max (rating s) 30) cands \<and>
     (\<forall>u. 0 \<le> u \<and> u < 1 \<longrightarrow>
        (\<exists>i<length cands. pickIndex cands u = Some i \<and>
                          weightedRandomSelection cands u = Some (cands ! i))) \<and>
     (\<forall>u i. i < length cands \<longrightarrow>
        (pickIndex cands u = Some i) =
          (u * sum_list (map (\<lambda>s. max (rating s) 30) cands)
             \<le> sum_list (map (\<lambda>s. max (rating s) 30) (take (Suc i) cands)) \<and>
           (\<forall>j<i. sum_list (map (\<lambda>s. max (rating s) 30) (take (Suc j) cands))
                    < u * sum_list (map (\<lambda>s. max (rating s) 30) cands)))) \<and>
     (\<forall>u i. i < length cands \<longrightarrow>
        (pickIndex cands u = Some i) =
          ((i = 0 \<or> sum_list (map (\<lambda>s. max (rating s) 30) (take i cands))
                       / sum_list (map (\<lambda>s. max (rating s) 30) cands) < u) \<and>
           u \<le> sum_list (map (\<lambda>s. max (rating s) 30) (take i cands))
                   / sum_list (map (\<lambda>s. max (rating s) 30) cands)
                 + max (rating (cands ! i)) 30 / sum_list (map (\<lambda>s. max (rating s) 30) cands)))"
proof -
  have w: "map showWeight cands = map (\<lambda>s. max (rating s) 30) cands"
    using assms(2) by (rule showWeights_rated)
  have wt: "map showWeight (take n cands) = map (\<lambda>s. max (rating s) 30) (take n cands)" for n
    using assms(2) by (intro showWeights_rated) (auto dest: in_set_takeD)
  have wi: "showWeight (cands ! i) = max (rating (cands ! i)) 30" if "i < length cands" for i
    using assms(2) that by (intro showWeight_rated) auto
  have sel: "\<forall>u. 0 \<le> u \<and> u < 1 \<longrightarrow>
        (\<exists>i<length cands. pickIndex cands u = Some i \<and>
                          weightedRandomSelection cands u = Some (cands ! i))"
    using pickIndex_selects[OF assms(1)] by blast
  have first: "\<forall>u i. i < length cands \<longrightarrow>
        (pickIndex cands u = Some i) =
          (u * sum_list (map (\<lambda>s. max (rating s) 30) cands)
             \<le> sum_list (map (\<lambda>s. max (rating s) 30) (take (Suc i) cands)) \<and>
           (\<forall>j<i. sum_list (map (\<lambda>s. max (rating s) 30) (take (Suc j) cands))
                    < u * sum_list (map (\<lambda>s. max (rating s) 30) cands)))"
    using pickIndex_first[of _ cands] unfolding w wt by blast
  have frac: "\<forall>u i. i < length cands \<longrightarrow>
        (pickIndex cands u = Some i) =
          ((i = 0 \<or> sum_list (map (\<lambda>s. max (rating s) 30) (take i cands))
                       / sum_list (map (\<lambda>s. max (rating s) 30) cands) < u) \<and>
           u \<le> sum_list (map (\<lambda>s. max (rating s) 30) (take i cands))
                   / sum_list (map (\<lambda>s. max (rating s) 30) cands)
                 + max (rating (cands ! i)) 30 / sum_list (map (\<lambda>s. max (rating s) 30) cands))"
  proof (intro allI impI)
    fix u i assume i: "i < length cands"
    show "(pickIndex cands u = Some i) =
          ((i = 0 \<or> sum_list (map (\<lambda>s. max (rating s) 30) (take i cands))
                       / sum_list (map (\<lambda>s. max (rating s) 30) cands) < u) \<and>
           u \<le> sum_list (map (\<lambda>s. max (rating s) 30) (take i cands))
                   / sum_list (map (\<lambda>s. max (rating s) 30) cands)
                 + max (rating (cands ! i)) 30 / sum_list (map (\<lambda>s. max (rating s) 30) cands))"
      using pickIndex_fraction[OF i, of u] unfolding w wt wi[OF i] .
  qed
  from w sel first frac show ?thesis by blast
qed

theorem weighted_selection_proportional_witness:
  "exampleCands \<noteq> [] \<and> list_all (\<lambda>s. 0 < rating s) exampleCands \<and>
   map showWeight exampleCands = [90, 60, 30] \<and>
   sum_list (map showWeight exampleCands) = 180 \<and>
   {u. 0 \<le> u \<and> u < 1 \<and> pickIndex exampleCands u = Some 0} = {0..1/2} \<and>
   {u. 0 \<le> u \<and> u < 1 \<and> pickIndex exampleCands u = Some 1} = {1/2<..5/6} \<and>
   {u. 0 \<le> u \<and> u < 1 \<and> pickIndex exampleCands u = Some 2} = {5/6<..<1} \<and>
   weightedRandomSelection exampleCands (1/4) = Some (mkShow ''A'' 90)"
proof -
  have ne: "exampleCands \<noteq> []" by (simp add: exampleCands_def)
  have pos: "\<forall>s\<in>set exampleCands. 0 < rating s" by (simp add: exampleCands_def mkShow_def)
  note t = weighted_selection_proportional[OF ne pos]
  have w: "map showWeight exampleCands = [90, 60, 30]"
    using conjunct1[OF t] by (simp add: exampleCands_def mkShow_def)
  have frac: "(pickIndex exampleCands u = Some i) =
          ((i = 0 \<or> sum_list (map (\<lambda>s. max (rating s) 30) (take i exampleCands))
                       / sum_list (map (\<lambda>s. max (rating s) 30) exampleCands) < u) \<and>
           u \<le> sum_list (map (\<lambda>s. max (rating s) 30) (take i exampleCands))
                   / sum_list (map (\<lambda>s. max (rating s) 30) exampleCands)
                 + max (rating (exampleCands ! i)) 30 / sum_list (map (\<lambda>s. max (rating s) 30) exampleCands))"
    if "i < length exampleCands" for u i
    using t that by blast
  have i0: "(pickIndex exampleCands u = Some 0) = (u \<le> 1/2)" for u
    using frac[of 0 u] by (simp add: exampleCands_def mkShow_def)
  have i1: "(pickIndex exampleCands u = Some 1) = (1/2 < u \<and> u \<le> 5/6)" for u
    using frac[of 1 u] by (simp add: exampleCands_def mkShow_def)
  have i2: "(pickIndex exampleCands u = Some 2) = (5/6 < u \<and> u \<le> 1)" for u
    using frac[of 2 u] by (simp add: exampleCands_def mkShow_def numeral_2_eq_2)
  have s0: "{u. 0 \<le> u \<and> u < 1 \<and> pickIndex exampleCands u = Some 0} = {0..1/2}"
    unfolding i0 by auto
  have s1: "{u. 0 \<le> u \<and> u < 1 \<and> pickIndex exampleCands u = Some 1} = {1/2<..5/6}"
    unfolding i1 by auto
  have s2: "{u. 0 \<le> u \<and> u < 1 \<and> pickIndex exampleCands u = Some 2} = {5/6<..<1}"
    unfolding i2 by auto
  have sel: "weightedRandomSelection exampleCands (1/4) = Some (mkShow ''A'' 90)"
    using i0[of "1/4"] by (simp add: weightedRandomSelection_def nthOpt_def exampleCands_def)
  have tot: "sum_list (map showWeight exampleCands) = 180"
    unfolding w by simp
  have pos': "list_all (\<lambda>s. 0 < rating s) exampleCands"
    using pos by (simp add: list_all_iff)
  from ne pos' w tot s0 s1 s2 sel show ?thesis by blast
qed

section \<open>Properties of selection and discovery\<close>

lemma getCandidates_relaxed:
  "getCandidates (cfg\<lparr>excludeRecent := Some False, minRating := None\<rparr>) env = getCandidates cfg env"
  by (simp add: getCandidates_def)

lemma applyFilters_relaxed:
  "applyFilters st (cfg\<lparr>excludeRecent := Some False, minRating := None\<rparr>) userId cands
     = filter qualityShow cands"
  by (simp add: applyFilters_def Let_def split: option.splits)

lemma applyFilters_subset: "set (applyFilters st cfg userId cands) \<subseteq> set cands"
  by (auto simp: applyFilters_def Let_def split: option.splits if_splits)

lemma applyFilters_quality: "s \<in> set (applyFilters st cfg userId cands) \<Longrightarrow> qualityShow s"
  by (simp add: applyFilters_def Let_def)

lemma applyFilters_rated: "\<forall>s\<in>set (applyFilters st cfg userId cands). 0 < rating s"
  using applyFilters_quality by (auto simp: qualityShow_def)

lemma applyFilters_excludes:
  assumes "truthy u" "excludeRecent cfg \<noteq> Some False"
    and "s \<in> set (applyFilters st cfg (Some u) cands)"
  shows "show_id s \<notin> show_id ` set (getUserRecentPicks st u)"
proof -
  have "(case excludeRecent cfg of None \<Rightarrow> True | Some b \<Rightarrow> b)"
    using assms(2) by (cases "excludeRecent cfg") auto
  then show ?thesis
    using assms(1,3) by (auto simp: applyFilters_def Let_def split: option.splits if_splits)
qed

lemma selectRandomShow_None_iff:
  "selectRandomShow st cfg userId env = None \<longleftrightarrow>
     applyFilters st cfg userId (getCandidates cfg env) = []"
proof (cases "applyFilters st cfg userId (getCandidates cfg env) = []")
  case True
  then show ?thesis by (simp add: selectRandomShow_def Let_def)
next
  case False
  then have "getCandidates cfg env \<noteq> []"
    using applyFilters_subset[of st cfg userId "getCandidates cfg env"] by auto
  moreover obtain s where "weightedRandomSelection (applyFilters st cfg userId (getCandidates cfg env)) (env_random env) = Some s"
    using weightedRandomSelection_mem[OF False] by blast
  ultimately show ?thesis using False by (simp add: selectRandomShow_def Let_def)
qed

lemma selectRandomShow_Some_mem:
  assumes "selectRandomShow st cfg userId env = Some s"
  shows "s \<in> set (applyFilters st cfg userId (getCandidates cfg env))"
proof -
  have ne: "applyFilters st cfg userId (getCandidates cfg env) \<noteq> []"
    using assms selectRandomShow_None_iff[of st cfg userId env] by auto
  then have "weightedRandomSelection (applyFilters st cfg userId (getCandidates cfg env)) (env_random env) = Some s"
    using assms by (simp add: selectRandomShow_def Let_def split: if_splits)
  with weightedRandomSelection_mem[OF ne, of "env_random env"] show ?thesis by auto
qed

lemma selectRandomShow_relaxed_None_iff:
  "selectRandomShow st (cfg\<lparr>excludeRecent := Some False, minRating := None\<rparr>) userId env = None \<longleftrightarrow>
     filter qualityShow (getCandidates cfg env) = []"
  unfolding selectRandomShow_None_iff getCandidates_relaxed applyFilters_relaxed ..

lemma discover_strict_empty:
  assumes "applyFilters st cfg userId (getCandidates cfg env1) = []"
  shows "discover st cfg userId env1 env2 =
           (case selectRandomShow st (cfg\<lparr>excludeRecent := Some False, minRating := None\<rparr>) userId env2 of
              None \<Rightarrow> (Inl (NoContentFound (noContentMessage cfg)), st)
            | Some s \<Rightarrow> (Inr \<lparr>resp_show = s, resp_country = country cfg, fromCache = False\<rparr>,
                         st\<lparr>totalPicks := totalPicks st + 1\<rparr>))"
proof -
  have "selectRandomShow st cfg userId env1 = None"
    using assms by (simp add: selectRandomShow_None_iff)
  then show ?thesis by (simp add: discover_def buildResponse_def split: option.splits)
qed

text \<open>
  C1.  When the first selection read candidates but its filters left none, \<open>discover\<close>
  makes one more selection, with \<open>excludeRecent\<close> off and \<open>minRating\<close> removed, and its
  outcome is the outcome of that selection: the selected title, or the error
  "No Netflix ... found" exactly when the relaxed selection yields nothing, which is
  exactly when no candidate of its read passes the quality filter.
\<close>

theorem discover_relaxed_retry:
  assumes "getCandidates cfg env1 \<noteq> []"
    and "applyFilters st cfg userId (getCandidates cfg env1) = []"
  shows
    "discover st cfg userId env1 env2 =
       (case selectRandomShow st (cfg\<lparr>excludeRecent := Some False, minRating := None\<rparr>) userId env2 of
          None \<Rightarrow> (Inl (NoContentFound (noContentMessage cfg)), st)
        | Some s \<Rightarrow> (Inr \<lparr>resp_show = s, resp_country = country cfg, fromCache = False\<rparr>,
                     st\<lparr>totalPicks := totalPicks st + 1\<rparr>)) \<and>
     ((\<exists>e. fst (discover st cfg userId env1 env2) = Inl e) \<longleftrightarrow>
        selectRandomShow st (cfg\<lparr>excludeRecent := Some False, minRating := None\<rparr>) userId env2 = None) \<and>
     (selectRandomShow st (cfg\<lparr>excludeRecent := Some False, minRating := None\<rparr>) userId env2 = None \<longleftrightarrow>
        filter qualityShow (getCandidates cfg env2) = []) \<and>
     (filter qualityShow (getCandidates cfg env2) \<noteq> [] \<longrightarrow>
        (\<exists>s\<in>set (filter qualityShow (getCandidates cfg env2)).
           discover st cfg userId env1 env2 =
             (Inr \<lparr>resp_show = s, resp_country = country cfg, fromCache = False\<rparr>,
              st\<lparr>totalPicks := totalPicks st + 1\<rparr>)))"
proof -
  let ?rel = "selectRandomShow st (cfg\<lparr>excludeRecent := Some False, minRating := None\<rparr>) userId env2"
  note d = discover_strict_empty[OF assms(2), of env2]
  have fail: "(\<exists>e. fst (discover st cfg userId env1 env2) = Inl e) \<longleftrightarrow> ?rel = None"
    unfolding d by (cases ?rel) auto
  have ret: "\<exists>s\<in>set (filter qualityShow (getCandidates cfg env2)).
           discover st cfg userId env1 env2 =
             (Inr \<lparr>resp_show = s, resp_country = country cfg, fromCache = False\<rparr>,
              st\<lparr>totalPicks := totalPicks st + 1\<rparr>)"
    if ne: "filter qualityShow (getCandidates cfg env2) \<noteq> []"
  proof -
    from ne obtain s where s: "?rel = Some s"
      using selectRandomShow_relaxed_None_iff[of st cfg userId env2] by auto
    from selectRandomShow_Some_mem[OF s]
    have "s \<in> set (filter qualityShow (getCandidates cfg env2))"
      by (simp only: getCandidates_relaxed applyFilters_relaxed)
    moreover have "discover st cfg userId env1 env2 =
             (Inr \<lparr>resp_show = s, resp_country = country cfg, fromCache = False\<rparr>,
              st\<lparr>totalPicks := totalPicks st + 1\<rparr>)"
      unfolding d s by simp
    ultimately show ?thesis by blast
  qed
  from d fail selectRandomShow_relaxed_None_iff[of st cfg userId env2] ret
  show ?thesis by blast
qed

lemma getCandidates_example:
  "getCandidates (movieConfig m) (exampleEnv [x] [0] u) = [x]"
  by (simp add: getCandidates_def movieConfig_def exampleEnv_def exampleCache_def exampleConfig_def
      getRandomShows_def getPoolKey_def showKindName_def isPoolExpired_def shuffled_def Let_def)

theorem discover_relaxed_retry_witness:
  "getCandidates (movieConfig (Some 90)) (exampleEnv [mkShow ''X'' 80] [0] 0) \<noteq> [] \<and>
   applyFilters emptyService (movieConfig (Some 90)) (Some ''u1'')
      (getCandidates (movieConfig (Some 90)) (exampleEnv [mkShow ''X'' 80] [0] 0)) = [] \<and>
   discover emptyService (movieConfig (Some 90)) (Some ''u1'')
      (exampleEnv [mkShow ''X'' 80] [0] 0) (exampleEnv [mkShow ''X'' 80] [0] 0)
     = (Inr \<lparr>resp_show = mkShow ''X'' 80, resp_country = ''us'', fromCache = False\<rparr>,
        emptyService\<lparr>totalPicks := 1\<rparr>) \<and>
   getCandidates (movieConfig (Some 90)) (exampleEnv [mkShow ''Z'' 0] [0] 0) \<noteq> [] \<and>
   discover emptyService (movieConfig (Some 90)) (Some ''u1'')
      (exampleEnv [mkShow ''Z'' 0] [0] 0) (exampleEnv [mkShow ''Z'' 0] [0] 0)
     = (Inl (NoContentFound ''No Netflix movie found for us''), emptyService)"
proof -
  have c: "getCandidates (movieConfig (Some 90)) (exampleEnv [x] [0] 0) = [x]" for x
    by (rule getCandidates_example)
  have f1: "applyFilters emptyService (movieConfig (Some 90)) (Some ''u1'') [mkShow ''X'' 80] = []"
    by (simp add: applyFilters_def movieConfig_def mkShow_def Let_def)
  have f2: "applyFilters emptyService (movieConfig (Some 90)) (Some ''u1'') [mkShow ''Z'' 0] = []"
    by (simp add: applyFilters_def movieConfig_def mkShow_def Let_def)
  have r1: "selectRandomShow emptyService ((movieConfig (Some 90))\<lparr>excludeRecent := Some False, minRating := None\<rparr>)
              (Some ''u1'') (exampleEnv [mkShow ''X'' 80] [0] 0) = Some (mkShow ''X'' 80)"
    by (simp add: selectRandomShow_def getCandidates_relaxed c applyFilters_relaxed Let_def)
       (simp add: qualityShow_def truthy_def truthyOpt_def weightedRandomSelection_def pickIndex_def
          nthOpt_def mkShow_def exampleEnv_def showWeight_def Let_def)
  have r2: "selectRandomShow emptyService ((movieConfig (Some 90))\<lparr>excludeRecent := Some False, minRating := None\<rparr>)
              (Some ''u1'') (exampleEnv [mkShow ''Z'' 0] [0] 0) = None"
    by (simp add: selectRandomShow_def getCandidates_relaxed c applyFilters_relaxed Let_def)
       (simp add: qualityShow_def mkShow_def)
  have n1: "getCandidates (movieConfig (Some 90)) (exampleEnv [mkShow ''X'' 80] [0] 0) \<noteq> []"
    and n2: "getCandidates (movieConfig (Some 90)) (exampleEnv [mkShow ''Z'' 0] [0] 0) \<noteq> []"
    by (simp_all add: c)
  have e1: "applyFilters emptyService (movieConfig (Some 90)) (Some ''u1'')
      (getCandidates (movieConfig (Some 90)) (exampleEnv [mkShow ''X'' 80] [0] 0)) = []"
    and e2: "applyFilters emptyService (movieConfig (Some 90)) (Some ''u1'')
      (getCandidates (movieConfig (Some 90)) (exampleEnv [mkShow ''Z'' 0] [0] 0)) = []"
    by (simp_all add: c f1 f2)
  have d1: "discover emptyService (movieConfig (Some 90)) (Some ''u1'')
      (exampleEnv [mkShow ''X'' 80] [0] 0) (exampleEnv [mkShow ''X'' 80] [0] 0)
     = (Inr \<lparr>resp_show = mkShow ''X'' 80, resp_country = ''us'', fromCache = False\<rparr>,
        emptyService\<lparr>totalPicks := 1\<rparr>)"
    using conjunct1[OF discover_relaxed_retry[OF n1 e1, of "exampleEnv [mkShow ''X'' 80] [0] 0"]]
    by (simp add: r1) (simp add: movieConfig_def emptyService_def)
  have d2: "discover emptyService (movieConfig (Some 90)) (Some ''u1'')
      (exampleEnv [mkShow ''Z'' 0] [0] 0) (exampleEnv [mkShow ''Z'' 0] [0] 0)
     = (Inl (NoContentFound ''No Netflix movie found for us''), emptyService)"
    using conjunct1[OF discover_relaxed_retry[OF n2 e2, of "exampleEnv [mkShow ''Z'' 0] [0] 0"]]
    by (simp add: r2) (simp add: movieConfig_def noContentMessage_def)
  from n1 e1 d1 n2 d2 show ?thesis by blast
qed

section \<open>Properties of the pick history\<close>

lemma length_update:
  "length (AList.update k v al) = (if k \<in> fst ` set al then length al else Suc (length al))"
  by (induction al) auto

lemma update_absent: "k \<notin> fst ` set al \<Longrightarrow> AList.update k v al = al @ [(k, v)]"
  by (induction al) auto

lemma foldl_update_distinct:
  assumes "distinct (map fst xs)" "fst ` set acc \<inter> fst ` set xs = {}"
  shows "foldl (\<lambda>acc (userId, picks). AList.update userId picks acc) acc xs = acc @ xs"
  using assms
proof (induction xs arbitrary: acc)
  case Nil
  then show ?case by simp
next
  case (Cons x xs)
  obtain k v where x: "x = (k, v)" by (cases x)
  have k: "k \<notin> fst ` set acc" using Cons.prems(2) x by auto
  have d: "distinct (map fst xs)" "k \<notin> fst ` set xs" using Cons.prems(1) x by auto
  have "fst ` set (acc @ [(k, v)]) \<inter> fst ` set xs = {}"
    using Cons.prems(2) d(2) x by auto
  from Cons.IH[OF d(1) this] show ?case
    by (simp add: x update_absent[OF k])
qed

lemma update_append_last:
  "k \<notin> fst ` set al \<Longrightarrow> AList.update k v (al @ [(k, w)]) = al @ [(k, v)]"
  by (induction al) auto

lemma cleanupOldPicks_take:
  assumes "distinct (map fst m)"
  shows "cleanupOldPicks m = (if length m > 1000 then take 500 m else m)"
proof -
  have "distinct (map fst (take 500 m))"
    using assms by (simp add: take_map[symmetric])
  then have "foldl (\<lambda>acc (userId, picks). AList.update userId picks acc) [] (take 500 m) = take 500 m"
    using foldl_update_distinct[of "take 500 m" "[]"] by simp
  then show ?thesis by (simp add: cleanupOldPicks_def Let_def)
qed

lemma cleanupOldPicks_direct_take:
  assumes "distinct (map fst m)"
  shows "cleanupOldPicks_direct m = (if length m > 100 then take 50 m else m)"
proof -
  have "distinct (map fst (take 50 m))"
    using assms by (simp add: take_map[symmetric])
  then have "foldl (\<lambda>acc (userId, picks). AList.update userId picks acc) [] (take 50 m) = take 50 m"
    using foldl_update_distinct[of "take 50 m" "[]"] by simp
  then show ?thesis by (simp add: cleanupOldPicks_direct_def Let_def)
qed

lemma cleanupOldPicks_small: "length m \<le> 1000 \<Longrightarrow> cleanupOldPicks m = m"
  by (simp add: cleanupOldPicks_def)

lemma map_of_Some_key: "map_of al k = Some v \<Longrightarrow> k \<in> fst ` set al"
  by (induction al) (auto split: if_splits)

lemma trackUserPick_known:
  assumes "map_of (recentPicks st) u = Some h" "length (recentPicks st) \<le> 1000"
  shows "recentPicks (trackUserPick st u s) = AList.update u (take maxRecentPicks (s # h)) (recentPicks st)"
proof -
  let ?p = "take maxRecentPicks (s # h)"
  have len: "length (AList.update u ?p (recentPicks st)) \<le> 1000"
    using assms map_of_Some_key[OF assms(1)] by (simp add: length_update)
  have p: "(if length (s # h) > maxRecentPicks then take maxRecentPicks (s # h) else s # h) = ?p"
    by simp
  have "recentPicks (trackUserPick st u s) =
          cleanupOldPicks (AList.update u
            (if length (s # h) > maxRecentPicks then take maxRecentPicks (s # h) else s # h)
            (recentPicks st))"
    unfolding trackUserPick_def Let_def using assms(1) by simp
  also have "\<dots> = cleanupOldPicks (AList.update u ?p (recentPicks st))"
    unfolding p ..
  also have "\<dots> = AList.update u ?p (recentPicks st)"
    by (rule cleanupOldPicks_small[OF len])
  finally show ?thesis .
qed

lemma getUserRecentPicks_tracked:
  assumes "map_of (recentPicks st) u = Some h" "length (recentPicks st) \<le> 1000"
  shows "getUserRecentPicks (trackUserPick st u s) u = take maxRecentPicks (s # h)"
  unfolding getUserRecentPicks_def trackUserPick_known[OF assms]
  by (simp add: update_conv' del: take_Suc_Cons)

lemma trackUserPick_new:
  assumes "map_of (recentPicks st) u = None"
  shows "recentPicks (trackUserPick st u s) = cleanupOldPicks (recentPicks st @ [(u, [s])])"
proof -
  have k: "u \<notin> fst ` set (recentPicks st)"
    using assms(1) by (simp add: map_of_eq_None_iff)
  have m1: "AList.update u [] (recentPicks st) = recentPicks st @ [(u, [])]"
    by (rule update_absent[OF k])
  have m2: "AList.update u [s] (recentPicks st @ [(u, [])]) = recentPicks st @ [(u, [s])]"
    by (rule update_append_last[OF k])
  have "map_of (recentPicks st @ [(u, [])]) u = Some []"
    using assms(1) by (simp add: map_add_def)
  then show ?thesis
    using assms by (simp add: trackUserPick_def Let_def m1 m2 maxRecentPicks_def)
qed

lemma getUserRecentPicks_cong:
  "recentPicks st' = recentPicks st \<Longrightarrow> getUserRecentPicks st' u = getUserRecentPicks st u"
  by (simp add: getUserRecentPicks_def)

lemma discover_strict_None:
  assumes "selectRandomShow st cfg userId env1 = None"
  shows "recentPicks (snd (discover st cfg userId env1 env2)) = recentPicks st \<and>
         (\<forall>resp. fst (discover st cfg userId env1 env2) = Inr resp \<longrightarrow> \<not> fromCache resp)"
  using assms by (auto simp: discover_def buildResponse_def split: option.splits)

lemma discover_strict_Some:
  assumes "selectRandomShow st cfg (Some u) env1 = Some s" "truthy u"
  shows "fst (discover st cfg (Some u) env1 env2)
           = Inr \<lparr>resp_show = s, resp_country = country cfg, fromCache = True\<rparr> \<and>
         recentPicks (snd (discover st cfg (Some u) env1 env2)) = recentPicks (trackUserPick st u s)"
  using assms by (simp add: discover_def buildResponse_def Let_def)

lemma discoverCalls_Cons:
  "fst (discoverCalls st u ((cfg, env1, env2) # calls))
     = fst (discover st cfg (Some u) env1 env2)
       # fst (discoverCalls (snd (discover st cfg (Some u) env1 env2)) u calls)"
  by (simp add: split_beta Let_def)

lemma history_nonempty_known:
  "getUserRecentPicks st u \<noteq> [] \<Longrightarrow> map_of (recentPicks st) u = Some (getUserRecentPicks st u)"
  by (auto simp: getUserRecentPicks_def split: option.splits)

lemma discoverCalls_excludes:
  assumes "truthy u"
  shows "length (recentPicks st) \<le> 1000 \<Longrightarrow>
         tid \<in> show_id ` set (take (Suc maxRecentPicks - length calls) (getUserRecentPicks st u)) \<Longrightarrow>
         \<forall>(cfg, env1, env2)\<in>set calls. excludeRecent cfg \<noteq> Some False \<Longrightarrow>
         \<forall>r\<in>set (fst (discoverCalls st u calls)).
            \<forall>resp. r = Inr resp \<and> fromCache resp \<longrightarrow> show_id (resp_show resp) \<noteq> tid"
proof (induction calls arbitrary: st)
  case Nil
  then show ?case by simp
next
  case (Cons call calls)
  obtain cfg env1 env2 where call: "call = (cfg, env1, env2)" by (cases call)
  let ?h = "getUserRecentPicks st u"
  let ?d = "discover st cfg (Some u) env1 env2"
  have ex: "excludeRecent cfg \<noteq> Some False"
    and rest: "\<forall>(cfg, env1, env2)\<in>set calls. excludeRecent cfg \<noteq> Some False"
    using Cons.prems(3) call by auto
  have tid_short: "tid \<in> show_id ` set (take (maxRecentPicks - length calls) ?h)"
    using Cons.prems(2) by simp
  then have tid_h: "tid \<in> show_id ` set ?h"
    by (auto dest: in_set_takeD)
  then have known: "map_of (recentPicks st) u = Some ?h"
    by (intro history_nonempty_known) auto
  have head: "\<forall>resp. fst ?d = Inr resp \<and> fromCache resp \<longrightarrow> show_id (resp_show resp) \<noteq> tid"
  proof (cases "selectRandomShow st cfg (Some u) env1")
    case None
    then show ?thesis using discover_strict_None[OF None, of env2] by blast
  next
    case (Some s)
    have "show_id s \<notin> show_id ` set ?h"
      using applyFilters_excludes[OF assms ex selectRandomShow_Some_mem[OF Some]] .
    then have "show_id s \<noteq> tid" using tid_h by auto
    then show ?thesis using discover_strict_Some[OF Some assms, of env2] by auto
  qed
  have tail: "\<forall>r\<in>set (fst (discoverCalls (snd ?d) u calls)).
            \<forall>resp. r = Inr resp \<and> fromCache resp \<longrightarrow> show_id (resp_show resp) \<noteq> tid"
  proof (cases "calls = []")
    case True
    then show ?thesis by simp
  next
    case False
    then have lc: "0 < length calls" by simp
    have "length (recentPicks (snd ?d)) \<le> 1000 \<and>
          tid \<in> show_id ` set (take (Suc maxRecentPicks - length calls) (getUserRecentPicks (snd ?d) u))"
    proof (cases "selectRandomShow st cfg (Some u) env1")
      case None
      have same: "recentPicks (snd ?d) = recentPicks st"
        using discover_strict_None[OF None, of env2] by blast
      have "set (take (maxRecentPicks - length calls) ?h)
              \<subseteq> set (take (Suc maxRecentPicks - length calls) ?h)"
        by (rule set_take_subset_set_take) simp
      then show ?thesis
        using tid_short Cons.prems(1) same getUserRecentPicks_cong[OF same, of u] by auto
    next
      case (Some s)
      have same: "recentPicks (snd ?d) = recentPicks (trackUserPick st u s)"
        using discover_strict_Some[OF Some assms, of env2] by blast
      have hist: "getUserRecentPicks (snd ?d) u = take maxRecentPicks (s # ?h)"
        using getUserRecentPicks_cong[OF same, of u]
              getUserRecentPicks_tracked[OF known Cons.prems(1), of s] by simp
      have len: "length (recentPicks (snd ?d)) \<le> 1000"
        unfolding same trackUserPick_known[OF known Cons.prems(1)]
        using Cons.prems(1) map_of_Some_key[OF known] by (simp add: length_update)
      have k_pos: "0 < maxRecentPicks - length calls"
        using tid_short by (cases "maxRecentPicks - length calls") auto
      have suc: "Suc maxRecentPicks - length calls = Suc (maxRecentPicks - length calls)"
        using k_pos by arith
      have le: "Suc (maxRecentPicks - length calls) \<le> maxRecentPicks"
        using lc k_pos by arith
      have "take (Suc (maxRecentPicks - length calls)) (take maxRecentPicks (s # ?h))
              = take (Suc (maxRecentPicks - length calls)) (s # ?h)"
        using le by (simp only: take_take min_absorb1)
      then have "take (Suc maxRecentPicks - length calls) (getUserRecentPicks (snd ?d) u)
                      = s # take (maxRecentPicks - length calls) ?h"
        unfolding hist suc by simp
      then show ?thesis using tid_short len by auto
    qed
    then show ?thesis using Cons.IH[OF _ _ rest, of "snd ?d"] by blast
  qed
  show ?case
    unfolding call discoverCalls_Cons using head tail by auto
qed

lemma applyFilters_mem:
  assumes "y \<in> set cands" "qualityShow y"
    and "case minRating cfg of None \<Rightarrow> True | Some m \<Rightarrow> m = 0 \<or> rating y \<ge> m"
    and "show_id y \<notin> show_id ` set (getUserRecentPicks st u)"
  shows "y \<in> set (applyFilters st cfg (Some u) cands)"
  using assms by (auto simp: applyFilters_def Let_def split: option.splits)

lemma applyFilters_all_recent:
  assumes "truthy u" "excludeRecent cfg \<noteq> Some False"
    and "set cands \<subseteq> set (getUserRecentPicks st u)"
  shows "applyFilters st cfg (Some u) cands = []"
proof -
  have "s \<notin> set (applyFilters st cfg (Some u) cands)" for s
    using applyFilters_excludes[OF assms(1,2), of s st cands]
          applyFilters_subset[of st cfg "Some u" cands] assms(3) by auto
  then show ?thesis by (cases "applyFilters st cfg (Some u) cands") auto
qed

lemma weightedRandomSelection_zero: "weightedRandomSelection (x # xs) 0 = Some x"
  using showWeight_ge[of x]
  by (simp add: weightedRandomSelection_def pickIndex_def nthOpt_def Let_def)

lemma qualityShow_mkShow: "qualityShow (mkShow i r) = (0 < r)"
  by (simp add: qualityShow_def mkShow_def truthy_def truthyOpt_def)

text \<open>
  C3 (as amended).  Let \<open>T\<close> be the title most recently recorded for user \<open>u\<close>.  None of
  the next \<open>maxRecentPicks\<close> calls of \<open>discover\<close> for \<open>u\<close> with \<open>excludeRecent\<close> on that
  succeeds on its first selection returns a title with the id of \<open>T\<close>; and a call whose
  candidates contain a title that passes the rating and quality filters and is not in
  the history of \<open>u\<close> succeeds on its first selection, so it does not return \<open>T\<close>.
\<close>

theorem recent_pick_excluded_by_first_selection:
  assumes "truthy u" and "length (recentPicks st) \<le> 1000"
    and "getUserRecentPicks st u = T # older"
    and "length calls \<le> maxRecentPicks"
    and "\<forall>(cfg, env1, env2)\<in>set calls. excludeRecent cfg \<noteq> Some False"
  shows
    "(\<forall>r\<in>set (fst (discoverCalls st u calls)).
        \<forall>resp. r = Inr resp \<and> fromCache resp \<longrightarrow> show_id (resp_show resp) \<noteq> show_id T) \<and>
     (\<forall>cfg env1 env2 y.
        excludeRecent cfg \<noteq> Some False \<and> y \<in> set (getCandidates cfg env1) \<and> qualityShow y \<and>
        (case minRating cfg of None \<Rightarrow> True | Some m \<Rightarrow> m = 0 \<or> rating y \<ge> m) \<and>
        show_id y \<notin> show_id ` set (getUserRecentPicks st u)
        \<longrightarrow> (\<exists>resp. fst (discover st cfg (Some u) env1 env2) = Inr resp \<and> fromCache resp \<and>
                    show_id (resp_show resp) \<noteq> show_id T))"
proof -
  have "0 < Suc maxRecentPicks - length calls" using assms(4) by simp
  then have "show_id T \<in> show_id ` set (take (Suc maxRecentPicks - length calls) (getUserRecentPicks st u))"
    unfolding assms(3) by (cases "Suc maxRecentPicks - length calls") auto
  from discoverCalls_excludes[OF assms(1,2) this assms(5)]
  have seq: "\<forall>r\<in>set (fst (discoverCalls st u calls)).
        \<forall>resp. r = Inr resp \<and> fromCache resp \<longrightarrow> show_id (resp_show resp) \<noteq> show_id T" .
  have one: "\<exists>resp. fst (discover st cfg (Some u) env1 env2) = Inr resp \<and> fromCache resp \<and>
                    show_id (resp_show resp) \<noteq> show_id T"
    if ex: "excludeRecent cfg \<noteq> Some False" and y: "y \<in> set (getCandidates cfg env1)" "qualityShow y"
      "case minRating cfg of None \<Rightarrow> True | Some m \<Rightarrow> m = 0 \<or> rating y \<ge> m"
      "show_id y \<notin> show_id ` set (getUserRecentPicks st u)"
    for cfg env1 env2 y
  proof -
    have "applyFilters st cfg (Some u) (getCandidates cfg env1) \<noteq> []"
      using applyFilters_mem[OF y] by auto
    then obtain s where s: "selectRandomShow st cfg (Some u) env1 = Some s"
      using selectRandomShow_None_iff[of st cfg "Some u" env1] by auto
    have "show_id s \<notin> show_id ` set (getUserRecentPicks st u)"
      using applyFilters_excludes[OF assms(1) ex selectRandomShow_Some_mem[OF s]] .
    then have "show_id s \<noteq> show_id T" unfolding assms(3) by auto
    then show ?thesis using discover_strict_Some[OF s assms(1), of env2] by auto
  qed
  from seq one show ?thesis by blast
qed

lemma getCandidates_xyEnv:
  "getCandidates (movieConfig m) xyEnv = [mkShow ''X'' 80, mkShow ''Y'' 80]"
  by (simp add: getCandidates_def movieConfig_def xyEnv_def exampleEnv_def exampleCache_def
      exampleConfig_def getRandomShows_def getPoolKey_def showKindName_def isPoolExpired_def
      shuffled_def Let_def)

lemma selectRandomShow_xyEnv:
  "selectRandomShow onePickService (movieConfig None) (Some ''u1'') xyEnv = Some (mkShow ''Y'' 80)"
proof -
  have "applyFilters onePickService (movieConfig None) (Some ''u1'') [mkShow ''X'' 80, mkShow ''Y'' 80]
          = [mkShow ''Y'' 80]"
    by (simp add: applyFilters_def movieConfig_def onePickService_def getUserRecentPicks_def
        qualityShow_mkShow truthy_def Let_def)
       (simp add: mkShow_def)
  moreover have "env_random xyEnv = 0" by (simp add: xyEnv_def exampleEnv_def)
  ultimately show ?thesis
    by (simp add: selectRandomShow_def getCandidates_xyEnv Let_def weightedRandomSelection_zero)
qed

theorem recent_pick_excluded_by_first_selection_witness:
  "truthy ''u1'' \<and> length (recentPicks onePickService) \<le> 1000 \<and>
   getUserRecentPicks onePickService ''u1'' = mkShow ''X'' 80 # [] \<and>
   length [(movieConfig None, xyEnv, xyEnv)] \<le> maxRecentPicks \<and>
   excludeRecent (movieConfig None) \<noteq> Some False \<and>
   fst (discoverCalls onePickService ''u1'' [(movieConfig None, xyEnv, xyEnv)])
     = [Inr \<lparr>resp_show = mkShow ''Y'' 80, resp_country = ''us'', fromCache = True\<rparr>] \<and>
   show_id (mkShow ''Y'' 80) \<noteq> show_id (mkShow ''X'' 80)"
proof -
  have h1: "truthy ''u1''" by (simp add: truthy_def)
  have h2: "length (recentPicks onePickService) \<le> 1000" by (simp add: onePickService_def)
  have h3: "getUserRecentPicks onePickService ''u1'' = mkShow ''X'' 80 # []"
    by (simp add: getUserRecentPicks_def onePickService_def)
  have h4: "length [(movieConfig None, xyEnv, xyEnv)] \<le> maxRecentPicks"
    by (simp add: maxRecentPicks_def)
  have h5: "\<forall>(cfg, env1, env2)\<in>set [(movieConfig None, xyEnv, xyEnv)]. excludeRecent cfg \<noteq> Some False"
    by (simp add: movieConfig_def)
  have h5': "excludeRecent (movieConfig None) \<noteq> Some False" by (simp add: movieConfig_def)
  have run: "fst (discoverCalls onePickService ''u1'' [(movieConfig None, xyEnv, xyEnv)])
     = [Inr \<lparr>resp_show = mkShow ''Y'' 80, resp_country = ''us'', fromCache = True\<rparr>]"
  proof -
    have "fst (discoverCalls onePickService ''u1'' [(movieConfig None, xyEnv, xyEnv)])
            = [fst (discover onePickService (movieConfig None) (Some ''u1'') xyEnv xyEnv)]"
      by (simp add: Let_def split_beta)
    also have "fst (discover onePickService (movieConfig None) (Some ''u1'') xyEnv xyEnv)
                 = Inr \<lparr>resp_show = mkShow ''Y'' 80, resp_country = country (movieConfig None),
                         fromCache = True\<rparr>"
      using discover_strict_Some[OF selectRandomShow_xyEnv h1, of xyEnv] by blast
    finally show ?thesis by (simp add: movieConfig_def)
  qed
  have "show_id (mkShow ''Y'' 80) \<noteq> show_id (mkShow ''X'' 80)"
    using conjunct1[OF recent_pick_excluded_by_first_selection[OF h1 h2 h3 h4 h5]]
    unfolding run by simp
  with h1 h2 h3 h4 h5' run show ?thesis by blast
qed

lemma selectRandomShow_relaxed_eq:
  assumes "filter qualityShow (getCandidates cfg env) \<noteq> []"
  shows "selectRandomShow st (cfg\<lparr>excludeRecent := Some False, minRating := None\<rparr>) userId env
           = weightedRandomSelection (filter qualityShow (getCandidates cfg env)) (env_random env)"
proof -
  have "getCandidates cfg env \<noteq> []" using assms by auto
  then show ?thesis
    using assms by (simp add: selectRandomShow_def getCandidates_relaxed applyFilters_relaxed Let_def)
qed

lemma pool21_quality: "\<forall>s\<in>set pool21. qualityShow s"
  by (simp add: pool21_def qualityShow_mkShow)

lemma getCandidates_pool21:
  "getCandidates (movieConfig None) (exampleEnv pool21 perm21 0) = take 20 pool21"
proof -
  have len: "length pool21 = 21" by (simp add: pool21_def)
  have "shuffled perm21 pool21 = pool21"
    by (simp add: shuffled_def perm21_def pool21_def)
  then show ?thesis
    by (simp add: getCandidates_def movieConfig_def exampleEnv_def exampleCache_def
      exampleConfig_def getRandomShows_def getPoolKey_def showKindName_def isPoolExpired_def
      Let_def len)
qed

text \<open>
  C3, counterexample.  User \<open>u1\<close> has been shown 20 of the 21 eligible movies of the pool,
  \<open>a\<close> most recently.  The next call reads 20 candidates, all of them in the history, so
  the first selection is empty and the relaxed retry returns \<open>a\<close> again.
\<close>

theorem recent_pick_returned_by_relaxed_retry:
  "getUserRecentPicks busyService ''u1'' = take 20 pool21 \<and>
   hd (getUserRecentPicks busyService ''u1'') = mkShow ''a'' 80 \<and>
   length (filter qualityShow pool21) = maxRecentPicks + 1 \<and>
   distinct (map show_id pool21) \<and>
   excludeRecent (movieConfig None) = Some True \<and>
   fst (discover busyService (movieConfig None) (Some ''u1'')
          (exampleEnv pool21 perm21 0) (exampleEnv pool21 perm21 0))
     = Inr \<lparr>resp_show = mkShow ''a'' 80, resp_country = ''us'', fromCache = False\<rparr>"
proof -
  have hist: "getUserRecentPicks busyService ''u1'' = take 20 pool21"
    by (simp add: getUserRecentPicks_def busyService_def)
  have tk: "take 20 pool21 = mkShow ''a'' 80 # tl (take 20 pool21)"
    by (simp add: pool21_def)
  have hd: "hd (getUserRecentPicks busyService ''u1'') = mkShow ''a'' 80"
    unfolding hist by (subst tk) simp
  have q: "filter qualityShow pool21 = pool21"
    using pool21_quality by simp
  have len: "length (filter qualityShow pool21) = maxRecentPicks + 1"
    unfolding q by (simp add: pool21_def maxRecentPicks_def)
  have dist: "distinct (map show_id pool21)"
    by (simp add: pool21_def mkShow_def)
  have ex: "excludeRecent (movieConfig None) = Some True" by (simp add: movieConfig_def)
  have strict: "applyFilters busyService (movieConfig None) (Some ''u1'')
                  (getCandidates (movieConfig None) (exampleEnv pool21 perm21 0)) = []"
    unfolding getCandidates_pool21
    by (rule applyFilters_all_recent) (simp_all add: truthy_def ex hist)
  have q20: "filter qualityShow (take 20 pool21) = take 20 pool21"
    using pool21_quality by (auto simp: filter_id_conv dest: in_set_takeD)
  have ne: "filter qualityShow (getCandidates (movieConfig None) (exampleEnv pool21 perm21 0)) \<noteq> []"
    unfolding getCandidates_pool21 q20 by (subst tk) simp
  have rnd: "env_random (exampleEnv pool21 perm21 0) = 0" by (simp add: exampleEnv_def)
  have "selectRandomShow busyService ((movieConfig None)\<lparr>excludeRecent := Some False, minRating := None\<rparr>)
          (Some ''u1'') (exampleEnv pool21 perm21 0)
        = weightedRandomSelection (take 20 pool21) 0"
    unfolding selectRandomShow_relaxed_eq[OF ne] getCandidates_pool21 q20 rnd ..
  also have "\<dots> = Some (mkShow ''a'' 80)"
    by (subst tk) (rule weightedRandomSelection_zero)
  finally have rel: "selectRandomShow busyService
          ((movieConfig None)\<lparr>excludeRecent := Some False, minRating := None\<rparr>)
          (Some ''u1'') (exampleEnv pool21 perm21 0) = Some (mkShow ''a'' 80)" .
  have "fst (discover busyService (movieConfig None) (Some ''u1'')
          (exampleEnv pool21 perm21 0) (exampleEnv pool21 perm21 0))
     = Inr \<lparr>resp_show = mkShow ''a'' 80, resp_country = ''us'', fromCache = False\<rparr>"
    unfolding discover_strict_empty[OF strict] rel by (simp add: movieConfig_def)
  with hist hd len dist ex show ?thesis by blast
qed

lemma set_update_insert: "set (AList.update k v al) \<subseteq> insert (k, v) (set al)"
  by (induction al) auto

lemma trackUserPick_eq:
  "recentPicks (trackUserPick st u s)
     = cleanupOldPicks (AList.update u (take maxRecentPicks (s # getUserRecentPicks st u)) (recentPicks st))"
proof (cases "map_of (recentPicks st) u")
  case None
  have k: "u \<notin> fst ` set (recentPicks st)"
    using None by (simp add: map_of_eq_None_iff)
  have "take maxRecentPicks (s # getUserRecentPicks st u) = [s]"
    using None by (simp add: getUserRecentPicks_def maxRecentPicks_def)
  then show ?thesis
    using trackUserPick_new[OF None, of s] by (simp add: update_absent[OF k])
next
  case (Some h)
  have p: "(if length (s # h) > maxRecentPicks then take maxRecentPicks (s # h) else s # h)
             = take maxRecentPicks (s # h)"
    by simp
  have "recentPicks (trackUserPick st u s) =
          cleanupOldPicks (AList.update u
            (if length (s # h) > maxRecentPicks then take maxRecentPicks (s # h) else s # h)
            (recentPicks st))"
    unfolding trackUserPick_def Let_def using Some by simp
  then show ?thesis
    unfolding p using Some by (simp add: getUserRecentPicks_def del: take_Suc_Cons)
qed

lemma trackUserPick_bounded:
  assumes "distinct (map fst (recentPicks st))"
    and "\<forall>h\<in>snd ` set (recentPicks st). length h \<le> maxRecentPicks"
  shows "distinct (map fst (recentPicks (trackUserPick st u s))) \<and>
         (\<forall>h\<in>snd ` set (recentPicks (trackUserPick st u s)). length h \<le> maxRecentPicks)"
proof -
  let ?p = "take maxRecentPicks (s # getUserRecentPicks st u)"
  let ?m = "AList.update u ?p (recentPicks st)"
  have d: "distinct (map fst ?m)" using assms(1) by (rule distinct_update)
  have "set ?m \<subseteq> insert (u, ?p) (set (recentPicks st))"
    by (rule set_update_insert)
  then have b: "\<forall>h\<in>snd ` set ?m. length h \<le> maxRecentPicks"
    using assms(2) by fastforce
  have c: "recentPicks (trackUserPick st u s) = (if length ?m > 1000 then take 500 ?m else ?m)"
    unfolding trackUserPick_eq by (rule cleanupOldPicks_take[OF d])
  have "distinct (map fst (take 500 ?m))" using d by (simp add: take_map[symmetric])
  moreover have "\<forall>h\<in>snd ` set (take 500 ?m). length h \<le> maxRecentPicks"
    using b by (auto dest: in_set_takeD)
  ultimately show ?thesis unfolding c using d b by simp
qed

lemma discover_first_selection_tracks:
  assumes "selectRandomShow st cfg (Some u) env1 = Some s" "truthy u"
    and "map_of (recentPicks st) u = Some h" "length (recentPicks st) \<le> 1000"
  shows "getUserRecentPicks (snd (discover st cfg (Some u) env1 env2)) u = take maxRecentPicks (s # h)"
  using discover_strict_Some[OF assms(1,2), of env2] getUserRecentPicks_tracked[OF assms(3,4), of s]
  by (simp add: getUserRecentPicks_def)

text \<open>
  C8, at the failing input.  With \<open>minRating = 90\<close> the only movie of the pool
  (rating 80) is returned by the relaxed retry, and the history of the user stays
  empty; the same movie returned by the first selection is recorded.
\<close>

theorem fallback_pick_not_tracked:
  "fst (discover emptyService (movieConfig (Some 90)) (Some ''u1'')
          (exampleEnv [mkShow ''X'' 80] [0] 0) (exampleEnv [mkShow ''X'' 80] [0] 0))
     = Inr \<lparr>resp_show = mkShow ''X'' 80, resp_country = ''us'', fromCache = False\<rparr> \<and>
   getUserRecentPicks
     (snd (discover emptyService (movieConfig (Some 90)) (Some ''u1'')
             (exampleEnv [mkShow ''X'' 80] [0] 0) (exampleEnv [mkShow ''X'' 80] [0] 0))) ''u1'' = [] \<and>
   fst (discover emptyService (movieConfig None) (Some ''u1'')
          (exampleEnv [mkShow ''X'' 80] [0] 0) (exampleEnv [mkShow ''X'' 80] [0] 0))
     = Inr \<lparr>resp_show = mkShow ''X'' 80, resp_country = ''us'', fromCache = True\<rparr> \<and>
   getUserRecentPicks
     (snd (discover emptyService (movieConfig None) (Some ''u1'')
             (exampleEnv [mkShow ''X'' 80] [0] 0) (exampleEnv [mkShow ''X'' 80] [0] 0))) ''u1''
     = [mkShow ''X'' 80]"
proof -
  let ?E = "exampleEnv [mkShow ''X'' 80] [0] 0"
  have rnd: "env_random ?E = 0" by (simp add: exampleEnv_def)
  have u: "truthy ''u1''" by (simp add: truthy_def)
  have q: "filter qualityShow [mkShow ''X'' 80] = [mkShow ''X'' 80]"
    by (simp add: qualityShow_mkShow)
  have f90: "applyFilters emptyService (movieConfig (Some 90)) (Some ''u1'')
               (getCandidates (movieConfig (Some 90)) ?E) = []"
    unfolding getCandidates_example
    by (simp add: applyFilters_def movieConfig_def mkShow_def Let_def)
  have ne: "filter qualityShow (getCandidates (movieConfig (Some 90)) ?E) \<noteq> []"
    unfolding getCandidates_example q by simp
  have rel: "selectRandomShow emptyService
               ((movieConfig (Some 90))\<lparr>excludeRecent := Some False, minRating := None\<rparr>)
               (Some ''u1'') ?E = Some (mkShow ''X'' 80)"
    unfolding selectRandomShow_relaxed_eq[OF ne] getCandidates_example q rnd
    by (rule weightedRandomSelection_zero)
  have d90: "discover emptyService (movieConfig (Some 90)) (Some ''u1'') ?E ?E
     = (Inr \<lparr>resp_show = mkShow ''X'' 80, resp_country = ''us'', fromCache = False\<rparr>,
        emptyService\<lparr>totalPicks := totalPicks emptyService + 1\<rparr>)"
    unfolding discover_strict_empty[OF f90] rel by (simp add: movieConfig_def)
  have fN: "applyFilters emptyService (movieConfig None) (Some ''u1'') [mkShow ''X'' 80]
              = [mkShow ''X'' 80]"
    by (simp add: applyFilters_def movieConfig_def emptyService_def getUserRecentPicks_def
        qualityShow_mkShow Let_def)
  have strict: "selectRandomShow emptyService (movieConfig None) (Some ''u1'') ?E = Some (mkShow ''X'' 80)"
    by (simp add: selectRandomShow_def getCandidates_example fN Let_def rnd weightedRandomSelection_zero)
  note dN = discover_strict_Some[OF strict u, of ?E]
  have new: "map_of (recentPicks emptyService) ''u1'' = None" by (simp add: emptyService_def)
  have hN: "getUserRecentPicks
     (snd (discover emptyService (movieConfig None) (Some ''u1'') ?E ?E)) ''u1'' = [mkShow ''X'' 80]"
    using dN trackUserPick_new[OF new, of "mkShow ''X'' 80"]
    by (simp add: getUserRecentPicks_def emptyService_def cleanupOldPicks_def)
  have h90: "getUserRecentPicks
     (snd (discover emptyService (movieConfig (Some 90)) (Some ''u1'') ?E ?E)) ''u1'' = []"
    unfolding d90 by (simp add: getUserRecentPicks_def emptyService_def)
  from d90 h90 dN hN show ?thesis by (simp add: movieConfig_def)
qed

lemma userName_inj: "userName i = userName j \<longleftrightarrow> i = j"
proof
  assume "userName i = userName j"
  then have "length (userName i) = length (userName j)" by simp
  then show "i = j" by (simp add: userName_def)
qed simp

lemma manyUsers_keys: "map fst (manyUsers n) = map userName [0..<n]"
  by (simp add: manyUsers_def comp_def)

lemma manyUsers_distinct: "distinct (map fst (manyUsers n))"
  unfolding manyUsers_keys by (simp add: distinct_map inj_on_def userName_inj)

lemma manyUsers_length: "length (manyUsers n) = n"
  by (simp add: manyUsers_def)

lemma manyUsers_take: "k \<le> n \<Longrightarrow> take k (manyUsers n) = manyUsers k"
  by (simp add: manyUsers_def take_map)

lemma manyUsers_Suc: "manyUsers (Suc n) = manyUsers n @ [(userName n, [mkShow (userName n) 80])]"
  by (simp add: manyUsers_def)

lemma manyUsers_absent: "n \<le> i \<Longrightarrow> map_of (manyUsers n) (userName i) = None"
  unfolding map_of_eq_None_iff
  by (auto simp: manyUsers_def userName_inj image_iff)

lemma manyUsers_first: "0 < n \<Longrightarrow> map_of (manyUsers n) (userName 0) = Some [mkShow (userName 0) 80]"
  by (simp add: manyUsers_def upt_conv_Cons)

text \<open>
  C9, at the failing input.  The map holds the users 0, ..., 999 in the order of
  their first pick, and user 1000 makes a first pick: the map grows to 1001 entries, and
  the cleanup keeps the 500 users that entered first and drops the 501 users that
  entered last, the one who has just picked among them.  The variant with the bounds
  100 and 50 does the same on 101 users.
\<close>

theorem cleanup_keeps_first_users:
  "length (manyUsers 1001) = 1001 \<and>
   cleanupOldPicks (manyUsers 1001) = manyUsers 500 \<and>
   recentPicks (trackUserPick \<lparr>recentPicks = manyUsers 1000, totalPicks = 1000\<rparr>
                  (userName 1000) (mkShow (userName 1000) 80)) = manyUsers 500 \<and>
   map_of (manyUsers 500) (userName 0) = Some [mkShow (userName 0) 80] \<and>
   map_of (manyUsers 500) (userName 1000) = None \<and>
   map_of (manyUsers 500) (userName 500) = None \<and>
   cleanupOldPicks_direct (manyUsers 101) = manyUsers 50"
proof -
  have c: "cleanupOldPicks (manyUsers 1001) = manyUsers 500"
    unfolding cleanupOldPicks_take[OF manyUsers_distinct]
    by (simp add: manyUsers_length manyUsers_take)
  have new: "map_of (recentPicks \<lparr>recentPicks = manyUsers 1000, totalPicks = 1000\<rparr>) (userName 1000) = None"
    by (simp add: manyUsers_absent)
  have "manyUsers 1001 = manyUsers 1000 @ [(userName 1000, [mkShow (userName 1000) 80])]"
    using manyUsers_Suc[of 1000] by simp
  then have t: "recentPicks (trackUserPick \<lparr>recentPicks = manyUsers 1000, totalPicks = 1000\<rparr>
                  (userName 1000) (mkShow (userName 1000) 80)) = manyUsers 500"
    using trackUserPick_new[OF new, of "mkShow (userName 1000) 80"] c by simp
  have d: "cleanupOldPicks_direct (manyUsers 101) = manyUsers 50"
    unfolding cleanupOldPicks_direct_take[OF manyUsers_distinct]
    by (simp add: manyUsers_length manyUsers_take)
  show ?thesis
    using c t d by (simp add: manyUsers_length manyUsers_absent manyUsers_first)
qed

section \<open>Properties of the cache\<close>

lemma collectShows_stop:
  "\<not> (int (length acc) < psize \<and> attempts < maxAttempts) \<Longrightarrow>
     collectShows psize fetch acc cursor attempts reqs = (acc, reqs)"
  by (subst collectShows.simps) auto

lemma collectShows_error:
  "int (length acc) < psize \<Longrightarrow> attempts < maxAttempts \<Longrightarrow> fetch attempts cursor = Inl e \<Longrightarrow>
     collectShows psize fetch acc cursor attempts reqs = (acc, reqs @ [cursor])"
  by (subst collectShows.simps) simp

lemma collectShows_prefix:
  "\<exists>ys. fst (collectShows psize fetch acc cursor attempts reqs) = acc @ ys \<and> (\<forall>s\<in>set ys. validShow s)"
proof (induction psize fetch acc cursor attempts reqs rule: collectShows.induct)
  case (1 psize fetch acc cursor attempts reqs)
  show ?case
  proof (cases "int (length acc) < psize \<and> attempts < maxAttempts")
    case False
    then show ?thesis by (simp add: collectShows_stop)
  next
    case go: True
    show ?thesis
    proof (cases "fetch attempts cursor")
      case (Inl e)
      then show ?thesis using go by (simp add: collectShows_error)
    next
      case (Inr result)
      show ?thesis
      proof (cases "resp_shows result = []")
        case True
        then show ?thesis using go Inr by (subst collectShows.simps) simp
      next
        case ne: False
        let ?acc' = "acc @ filter validShow (resp_shows result)"
        show ?thesis
        proof (cases "\<not> hasMore result \<or> \<not> truthyOpt (nextCursor result)")
          case True
          then show ?thesis using go Inr ne by (subst collectShows.simps) (auto simp: Let_def)
        next
          case False
          from "1.IH"[OF go Inr ne refl False]
          obtain ys where "fst (collectShows psize fetch ?acc' (nextCursor result) (attempts + 1) (reqs @ [cursor]))
                             = ?acc' @ ys" "\<forall>s\<in>set ys. validShow s"
            by blast
          then show ?thesis using go Inr ne False
            by (subst collectShows.simps) (auto simp: Let_def)
        qed
      qed
    qed
  qed
qed

lemma collectShows_valid: "\<forall>s\<in>set (fst (collectShows psize fetch [] cursor attempts reqs)). validShow s"
  using collectShows_prefix[of psize fetch "[]" cursor attempts reqs] by auto

lemma collectShows_nonempty_room:
  "fst (collectShows psize fetch [] cursor attempts reqs) \<noteq> [] \<Longrightarrow> 0 < psize"
  by (rule ccontr) (simp add: collectShows_stop)

lemma collectShows_requests:
  "\<exists>new. snd (collectShows psize fetch acc cursor attempts reqs) = reqs @ new \<and>
          length new \<le> maxAttempts - attempts"
proof (induction psize fetch acc cursor attempts reqs rule: collectShows.induct)
  case (1 psize fetch acc cursor attempts reqs)
  show ?case
  proof (cases "int (length acc) < psize \<and> attempts < maxAttempts")
    case False
    then show ?thesis by (simp add: collectShows_stop)
  next
    case go: True
    show ?thesis
    proof (cases "fetch attempts cursor")
      case (Inl e)
      then show ?thesis using go by (auto simp: collectShows_error)
    next
      case (Inr result)
      show ?thesis
      proof (cases "resp_shows result = []")
        case True
        then show ?thesis using go Inr by (subst collectShows.simps) auto
      next
        case ne: False
        let ?acc' = "acc @ filter validShow (resp_shows result)"
        show ?thesis
        proof (cases "\<not> hasMore result \<or> \<not> truthyOpt (nextCursor result)")
          case True
          then show ?thesis using go Inr ne by (subst collectShows.simps) (auto simp: Let_def)
        next
          case False
          from "1.IH"[OF go Inr ne refl False]
          obtain new where "snd (collectShows psize fetch ?acc' (nextCursor result) (attempts + 1) (reqs @ [cursor]))
                             = (reqs @ [cursor]) @ new" "length new \<le> maxAttempts - (attempts + 1)"
            by blast
          then have "snd (collectShows psize fetch acc cursor attempts reqs) = reqs @ (cursor # new)
                     \<and> length (cursor # new) \<le> maxAttempts - attempts"
            using go Inr ne False by (subst collectShows.simps) (auto simp: Let_def)
          then show ?thesis by blast
        qed
      qed
    qed
  qed
qed

lemma slice0_length: "0 \<le> e \<Longrightarrow> int (length (slice0 xs e)) \<le> e"
  by (simp add: slice0_def)

lemma slice0_take: "0 \<le> e \<Longrightarrow> slice0 xs e = take (nat e) xs"
  by (simp add: slice0_def)

lemma refreshPool_in_flight:
  "poolKey \<in> isRefreshing c \<Longrightarrow> refreshPool c poolKey ctry t fetch now = (c, [])"
  by (simp add: refreshPool_def refreshPool_enter_def)

lemma refreshPool_entered:
  assumes "poolKey \<notin> isRefreshing c"
  shows "refreshPool c poolKey ctry t fetch now =
           (refreshPool_finally
              (updatePool (c\<lparr>isRefreshing := insert poolKey (isRefreshing c)\<rparr>) poolKey ctry t
                 (fst (collectShows (poolSize (config c)) fetch [] None 0 [])) now) poolKey,
            snd (collectShows (poolSize (config c)) fetch [] None 0 []))"
  using assms by (simp add: refreshPool_def refreshPool_enter_def split_beta)

lemma updatePool_empty: "updatePool c poolKey ctry t [] now = c"
  by (simp add: updatePool_def)

lemma updatePool_isRefreshing: "isRefreshing (updatePool c poolKey ctry t collected now) = isRefreshing c"
  by (simp add: updatePool_def Let_def)

lemma updatePool_config: "config (updatePool c poolKey ctry t collected now) = config c"
  by (simp add: updatePool_def Let_def)

lemma updatePool_pools:
  "collected \<noteq> [] \<Longrightarrow>
     pools (updatePool c poolKey ctry t collected now) =
       AList.update poolKey
         \<lparr>pool_shows = slice0 collected (poolSize (config c)), lastUpdate = now,
          pool_country = ctry, pool_showType = showTypeOrAny t\<rparr> (pools c)"
  by (simp add: updatePool_def Let_def)

lemma refreshPool_marker:
  "poolKey \<notin> isRefreshing c \<Longrightarrow>
     isRefreshing (fst (refreshPool c poolKey ctry t fetch now)) = isRefreshing c"
  by (simp add: refreshPool_entered refreshPool_finally_def updatePool_isRefreshing)

lemma refreshPool_config: "config (fst (refreshPool c poolKey ctry t fetch now)) = config c"
  by (cases "poolKey \<in> isRefreshing c")
     (simp_all add: refreshPool_in_flight refreshPool_entered refreshPool_finally_def updatePool_config)

lemma refreshPool_pools_empty:
  assumes "poolKey \<notin> isRefreshing c" "fst (collectShows (poolSize (config c)) fetch [] None 0 []) = []"
  shows "pools (fst (refreshPool c poolKey ctry t fetch now)) = pools c \<and>
         metadata (fst (refreshPool c poolKey ctry t fetch now)) = metadata c"
  using assms by (simp add: refreshPool_entered refreshPool_finally_def updatePool_empty)

lemma refreshPool_pools_installed:
  assumes "poolKey \<notin> isRefreshing c" "fst (collectShows (poolSize (config c)) fetch [] None 0 []) \<noteq> []"
  shows "pools (fst (refreshPool c poolKey ctry t fetch now)) =
           AList.update poolKey
             \<lparr>pool_shows = slice0 (fst (collectShows (poolSize (config c)) fetch [] None 0 []))
                              (poolSize (config c)),
              lastUpdate = now, pool_country = ctry, pool_showType = showTypeOrAny t\<rparr> (pools c)"
  using assms by (simp add: refreshPool_entered refreshPool_finally_def updatePool_pools)

lemma triggerRefresh_cases:
  "triggerRefresh c poolKey ctry t now =
     (if poolKey \<in> isRefreshing c then (c, None)
      else if 0 < poolSize (config c)
           then (c\<lparr>isRefreshing := insert poolKey (isRefreshing c)\<rparr>, Some poolKey)
           else (c, None))"
  by (cases c)
     (simp add: triggerRefresh_def refreshPool_enter_def maxAttempts_def refreshPool_finally_def
        updatePool_empty)

lemma triggerRefresh_pools:
  "pools (fst (triggerRefresh c poolKey ctry t now)) = pools c \<and>
   config (fst (triggerRefresh c poolKey ctry t now)) = config c"
  by (simp add: triggerRefresh_cases)

lemma getRandomShow_pools:
  "pools (fst (snd (getRandomShow c ctry t now r))) = pools c \<and>
   config (fst (snd (getRandomShow c ctry t now r))) = config c"
  by (simp add: getRandomShow_def Let_def split_beta triggerRefresh_cases recordCacheMiss_def
      recordCacheHit_def split: option.splits)

lemma getRandomShow_started:
  "(snd (snd (getRandomShow c ctry t now r)) = None \<and>
      isRefreshing (fst (snd (getRandomShow c ctry t now r))) = isRefreshing c) \<or>
   (snd (snd (getRandomShow c ctry t now r)) = Some (getPoolKey ctry t) \<and>
      getPoolKey ctry t \<notin> isRefreshing c \<and>
      isRefreshing (fst (snd (getRandomShow c ctry t now r))) = insert (getPoolKey ctry t) (isRefreshing c))"
  by (simp add: getRandomShow_def Let_def split_beta triggerRefresh_cases recordCacheMiss_def
      recordCacheHit_def split: option.splits)

lemma find_key:
  "find (\<lambda>task. fst task = k) xs = Some task \<Longrightarrow> task \<in> set xs \<and> fst task = k"
  by (induction xs) (auto split: if_splits)

lemma find_key_None: "find (\<lambda>task. fst task = k) xs = None \<longleftrightarrow> k \<notin> fst ` set xs"
  by (induction xs) auto

lemma remove1_keys:
  assumes "distinct (map fst xs)" "task \<in> set xs"
  shows "fst ` set (remove1 task xs) = fst ` set xs - {fst task} \<and> distinct (map fst (remove1 task xs))"
  using assms
proof (induction xs)
  case Nil
  then show ?case by simp
next
  case (Cons x xs)
  show ?case
  proof (cases "x = task")
    case True
    then show ?thesis using Cons.prems by auto
  next
    case False
    then have "task \<in> set xs" using Cons.prems(2) by simp
    moreover have "distinct (map fst xs)" using Cons.prems(1) by simp
    ultimately have ih: "fst ` set (remove1 task xs) = fst ` set xs - {fst task}"
      "distinct (map fst (remove1 task xs))"
      using Cons.IH by auto
    have "fst x \<noteq> fst task"
      using Cons.prems(1) \<open>task \<in> set xs\<close> by (auto simp: image_iff)
    then show ?thesis using False ih Cons.prems(1) by auto
  qed
qed

lemma flightInv_step: "flightInv sys \<Longrightarrow> flightInv (cacheStep sys ev)"
proof (cases ev)
  case (StartRefresh k ctry t)
  assume "flightInv sys"
  then show ?thesis
    by (auto simp: StartRefresh flightInv_def refreshPool_enter_def)
next
  case (CompleteRefresh k fetch now)
  assume inv: "flightInv sys"
  show ?thesis
  proof (cases "find (\<lambda>task. fst task = k) (inFlight sys)")
    case None
    then show ?thesis using inv by (simp add: CompleteRefresh)
  next
    case (Some task)
    from find_key[OF Some] have task: "task \<in> set (inFlight sys)" "fst task = k" by auto
    from remove1_keys[OF _ task(1)] inv
    have "fst ` set (remove1 task (inFlight sys)) = fst ` set (inFlight sys) - {k}"
      "distinct (map fst (remove1 task (inFlight sys)))"
      using task(2) by (auto simp: flightInv_def)
    then show ?thesis
      using inv
      by (simp add: CompleteRefresh Some flightInv_def split_beta Let_def refreshPool_finally_def
          updatePool_isRefreshing)
  qed
next
  case (ReadShow ctry t now r)
  assume inv: "flightInv sys"
  let ?g = "getRandomShow (sys_cache sys) ctry t now r"
  from getRandomShow_started[of "sys_cache sys" ctry t now r]
  show ?thesis
  proof (elim disjE conjE)
    assume "snd (snd ?g) = None" "isRefreshing (fst (snd ?g)) = isRefreshing (sys_cache sys)"
    then show ?thesis
      using inv by (simp add: ReadShow flightInv_def split_beta Let_def)
  next
    assume "snd (snd ?g) = Some (getPoolKey ctry t)"
      "getPoolKey ctry t \<notin> isRefreshing (sys_cache sys)"
      "isRefreshing (fst (snd ?g)) = insert (getPoolKey ctry t) (isRefreshing (sys_cache sys))"
    then show ?thesis
      using inv by (simp add: ReadShow flightInv_def split_beta Let_def)
  qed
qed

lemma flightInv_run: "flightInv sys \<Longrightarrow> flightInv (cacheRun sys evs)"
  unfolding cacheRun_def
  by (induction evs arbitrary: sys) (simp_all add: flightInv_step)

lemma flightInv_initial: "flightInv (initialSys cfg)"
  by (simp add: flightInv_def initialSys_def newCache_def)

lemma updatePool_bounded:
  assumes "poolsBounded c"
    and "collected \<noteq> [] \<longrightarrow> 0 < poolSize (config c)"
  shows "poolsBounded (updatePool c poolKey ctry t collected now)"
proof (cases "collected = []")
  case True
  then show ?thesis using assms(1) by (simp add: updatePool_empty)
next
  case False
  let ?pool = "\<lparr>pool_shows = slice0 collected (poolSize (config c)), lastUpdate = now,
                 pool_country = ctry, pool_showType = showTypeOrAny t\<rparr>"
  have "int (length (pool_shows ?pool)) \<le> poolSize (config c)"
    using assms(2) False by (simp add: slice0_length)
  moreover have "set (AList.update poolKey ?pool (pools c)) \<subseteq> insert (poolKey, ?pool) (set (pools c))"
    by (rule set_update_insert)
  ultimately have "\<forall>p\<in>snd ` set (AList.update poolKey ?pool (pools c)).
                     int (length (pool_shows p)) \<le> poolSize (config c)"
    using assms(1) by (fastforce simp: poolsBounded_def list_all_iff)
  then show ?thesis
    using False by (simp add: poolsBounded_def list_all_iff updatePool_pools updatePool_config)
qed

lemma poolsBounded_cong:
  "pools c' = pools c \<Longrightarrow> config c' = config c \<Longrightarrow> poolsBounded c' = poolsBounded c"
  by (simp add: poolsBounded_def)

lemma refreshPool_bounded:
  assumes "poolsBounded c"
  shows "poolsBounded (fst (refreshPool c poolKey ctry t fetch now))"
proof (cases "poolKey \<in> isRefreshing c")
  case True
  then show ?thesis using assms by (simp add: refreshPool_in_flight)
next
  case False
  let ?c1 = "c\<lparr>isRefreshing := insert poolKey (isRefreshing c)\<rparr>"
  let ?col = "fst (collectShows (poolSize (config c)) fetch [] None 0 [])"
  have "poolsBounded ?c1" using assms by (simp add: poolsBounded_def)
  moreover have "?col \<noteq> [] \<longrightarrow> 0 < poolSize (config ?c1)"
    using collectShows_nonempty_room[of "poolSize (config c)" fetch None 0 "[]"] by simp
  ultimately have "poolsBounded (updatePool ?c1 poolKey ctry t ?col now)"
    by (rule updatePool_bounded)
  then show ?thesis
    using False by (simp add: refreshPool_entered refreshPool_finally_def poolsBounded_def)
qed

lemma poolsBounded_step:
  assumes "poolsBounded (sys_cache sys)"
  shows "poolsBounded (sys_cache (cacheStep sys ev)) \<and>
         config (sys_cache (cacheStep sys ev)) = config (sys_cache sys)"
proof (cases ev)
  case (StartRefresh k ctry t)
  then show ?thesis
    using assms by (auto simp: refreshPool_enter_def poolsBounded_def)
next
  case (CompleteRefresh k fetch now)
  show ?thesis
  proof (cases "find (\<lambda>task. fst task = k) (inFlight sys)")
    case None
    then show ?thesis using assms by (simp add: CompleteRefresh)
  next
    case (Some task)
    let ?c = "sys_cache sys"
    let ?col = "fst (collectShows (poolSize (config ?c)) fetch [] None 0 [])"
    have "?col \<noteq> [] \<longrightarrow> 0 < poolSize (config ?c)"
      using collectShows_nonempty_room[of "poolSize (config ?c)" fetch None 0 "[]"] by simp
    with assms have "poolsBounded (updatePool ?c k (fst (snd task)) (snd (snd task)) ?col now)"
      by (rule updatePool_bounded)
    then show ?thesis
      by (simp add: CompleteRefresh Some split_beta Let_def refreshPool_finally_def poolsBounded_def
          updatePool_config)
  qed
next
  case (ReadShow ctry t now r)
  from getRandomShow_pools[of "sys_cache sys" ctry t now r]
  show ?thesis
    using assms by (simp add: ReadShow split_beta Let_def poolsBounded_def)
qed

lemma poolsBounded_run:
  "poolsBounded (sys_cache sys) \<Longrightarrow>
     poolsBounded (sys_cache (cacheRun sys evs)) \<and>
     config (sys_cache (cacheRun sys evs)) = config (sys_cache sys)"
  unfolding cacheRun_def
proof (induction evs arbitrary: sys)
  case Nil
  then show ?case by simp
next
  case (Cons ev evs)
  from poolsBounded_step[OF Cons.prems, of ev] Cons.IH[of "cacheStep sys ev"]
  show ?case by simp
qed

lemma initializePools_empty: "list_all (\<lambda>p. pool_shows p = []) (map snd initializePools)"
  by (simp add: initializePools_def supportedCountries_def getPoolKey_def showKindName_def)

lemma poolsBounded_initial: "0 \<le> poolSize cfg \<Longrightarrow> poolsBounded (sys_cache (initialSys cfg))"
  using initializePools_empty
  by (simp add: poolsBounded_def initialSys_def newCache_def list_all_iff)

lemma map_of_update_other: "k \<noteq> k' \<Longrightarrow> map_of (AList.update k' v al) k = map_of al k"
  by (simp add: update_conv')

lemma refreshPool_other_pools:
  assumes "k \<noteq> poolKey"
  shows "map_of (pools (fst (refreshPool c poolKey ctry t fetch now))) k = map_of (pools c) k"
proof (cases "poolKey \<in> isRefreshing c")
  case True
  then show ?thesis by (simp add: refreshPool_in_flight)
next
  case False
  show ?thesis
  proof (cases "fst (collectShows (poolSize (config c)) fetch [] None 0 []) = []")
    case True
    then show ?thesis using refreshPool_pools_empty[OF False True] by simp
  next
    case ne: False
    show ?thesis
      unfolding refreshPool_pools_installed[OF False ne]
      using assms by (simp add: map_of_update_other)
  qed
qed

lemma refreshPool_installed_pool:
  assumes "poolKey \<notin> isRefreshing c" "fst (collectShows (poolSize (config c)) fetch [] None 0 []) \<noteq> []"
  shows "map_of (pools (fst (refreshPool c poolKey ctry t fetch now))) poolKey =
           Some \<lparr>pool_shows = take (nat (poolSize (config c)))
                                (fst (collectShows (poolSize (config c)) fetch [] None 0 [])),
                 lastUpdate = now, pool_country = ctry, pool_showType = showTypeOrAny t\<rparr>"
proof -
  have "0 \<le> poolSize (config c)"
    using collectShows_nonempty_room[OF assms(2)] by simp
  then show ?thesis
    unfolding refreshPool_pools_installed[OF assms]
    by (simp add: update_conv' slice0_take)
qed

lemma validTitles_snoc: "validTitles (pages @ [r]) = validTitles pages @ filter validShow (resp_shows r)"
  by (simp add: validTitles_def)

lemma cursorBefore_snoc_old: "i \<le> length pages \<Longrightarrow> cursorBefore (pages @ [r]) i = cursorBefore pages i"
  by (cases i) (simp_all add: cursorBefore_def nth_append)

lemma cursorBefore_snoc_new: "cursorBefore (pages @ [r]) (Suc (length pages)) = nextCursor r"
  by (simp add: cursorBefore_def)

lemma pagesFetched_snoc:
  assumes "pagesFetched psize fetch (pages @ [r])"
  shows "pagesFetched psize fetch pages"
    and "pages = [] \<or> hasMore (last pages) \<and> truthyOpt (nextCursor (last pages))"
    and "length pages < maxAttempts"
    and "int (length (validTitles pages)) < psize"
    and "fetch (length pages) (cursorBefore pages (length pages)) = Inr r"
    and "resp_shows r \<noteq> []"
proof -
  have all: "i < maxAttempts \<and>
        int (length (validTitles (take i (pages @ [r])))) < psize \<and>
        fetch i (cursorBefore (pages @ [r]) i) = Inr ((pages @ [r]) ! i) \<and>
        resp_shows ((pages @ [r]) ! i) \<noteq> [] \<and>
        (Suc i < length (pages @ [r]) \<longrightarrow>
           hasMore ((pages @ [r]) ! i) \<and> truthyOpt (nextCursor ((pages @ [r]) ! i)))"
    if "i < length (pages @ [r])" for i
    using assms that unfolding pagesFetched_def by blast
  show "pagesFetched psize fetch pages"
    unfolding pagesFetched_def
  proof (intro allI impI)
    fix i assume i: "i < length pages"
    then have "i < length (pages @ [r])" by simp
    from all[OF this] i show "i < maxAttempts \<and>
        int (length (validTitles (take i pages))) < psize \<and>
        fetch i (cursorBefore pages i) = Inr (pages ! i) \<and>
        resp_shows (pages ! i) \<noteq> [] \<and>
        (Suc i < length pages \<longrightarrow> hasMore (pages ! i) \<and> truthyOpt (nextCursor (pages ! i)))"
      by (simp add: nth_append cursorBefore_snoc_old)
  qed
  show "pages = [] \<or> hasMore (last pages) \<and> truthyOpt (nextCursor (last pages))"
  proof (cases "pages = []")
    case True
    then show ?thesis by simp
  next
    case False
    then have "length pages - 1 < length (pages @ [r])" "Suc (length pages - 1) < length (pages @ [r])"
      by simp_all
    from all[OF this(1)] this(2) False show ?thesis
      by (simp add: nth_append last_conv_nth)
  qed
  have "length pages < length (pages @ [r])" by simp
  from all[OF this]
  show "length pages < maxAttempts" "int (length (validTitles pages)) < psize"
    "fetch (length pages) (cursorBefore pages (length pages)) = Inr r" "resp_shows r \<noteq> []"
    by (simp_all add: cursorBefore_snoc_old)
qed

lemma collectShows_more:
  assumes "int (length acc) < psize" "attempts < maxAttempts" "fetch attempts cursor = Inr r"
    and "resp_shows r \<noteq> []" "hasMore r" "truthyOpt (nextCursor r)"
  shows "collectShows psize fetch acc cursor attempts reqs =
           collectShows psize fetch (acc @ filter validShow (resp_shows r)) (nextCursor r)
             (attempts + 1) (reqs @ [cursor])"
  using assms by (subst collectShows.simps) (simp add: Let_def)

lemma collectShows_last:
  assumes "int (length acc) < psize" "attempts < maxAttempts" "fetch attempts cursor = Inr r"
    and "resp_shows r \<noteq> []" "\<not> hasMore r \<or> \<not> truthyOpt (nextCursor r)"
  shows "collectShows psize fetch acc cursor attempts reqs =
           (acc @ filter validShow (resp_shows r), reqs @ [cursor])"
  using assms by (subst collectShows.simps) (auto simp: Let_def)

lemma collectShows_empty_page:
  assumes "int (length acc) < psize" "attempts < maxAttempts" "fetch attempts cursor = Inr r"
    and "resp_shows r = []"
  shows "collectShows psize fetch acc cursor attempts reqs = (acc, reqs @ [cursor])"
  using assms by (subst collectShows.simps) simp

lemma collectShows_after_pages:
  "pagesFetched psize fetch pages \<Longrightarrow>
   pages = [] \<or> hasMore (last pages) \<and> truthyOpt (nextCursor (last pages)) \<Longrightarrow>
   \<exists>reqs. collectShows psize fetch [] None 0 [] =
            collectShows psize fetch (validTitles pages) (cursorBefore pages (length pages))
              (length pages) reqs"
proof (induction pages rule: rev_induct)
  case Nil
  have "collectShows psize fetch [] None 0 [] =
          collectShows psize fetch (validTitles []) (cursorBefore [] (length [])) (length []) []"
    by (simp add: validTitles_def cursorBefore_def)
  then show ?case by blast
next
  case (snoc r pages)
  note p = pagesFetched_snoc[OF snoc.prems(1)]
  from snoc.IH[OF p(1) p(2)] obtain reqs where
    ih: "collectShows psize fetch [] None 0 [] =
           collectShows psize fetch (validTitles pages) (cursorBefore pages (length pages))
             (length pages) reqs"
    by blast
  have more: "hasMore r" "truthyOpt (nextCursor r)" using snoc.prems(2) by simp_all
  have "collectShows psize fetch (validTitles pages) (cursorBefore pages (length pages)) (length pages) reqs
          = collectShows psize fetch (validTitles (pages @ [r]))
              (cursorBefore (pages @ [r]) (length (pages @ [r]))) (length (pages @ [r]))
              (reqs @ [cursorBefore pages (length pages)])"
    using collectShows_more[where fetch = fetch and attempts = "length pages"
            and cursor = "cursorBefore pages (length pages)" and reqs = reqs,
            OF p(4) p(3) p(5) p(6) more]
    by (simp add: validTitles_snoc cursorBefore_snoc_new)
  with ih show ?case by metis
qed

lemma collectShows_pass:
  assumes "pagesFetched psize fetch pages" "passStops psize fetch pages"
  shows "fst (collectShows psize fetch [] None 0 []) = validTitles pages"
proof (cases "pages = [] \<or> hasMore (last pages) \<and> truthyOpt (nextCursor (last pages))")
  case True
  from collectShows_after_pages[OF assms(1) True] obtain reqs where
    run: "collectShows psize fetch [] None 0 [] =
            collectShows psize fetch (validTitles pages) (cursorBefore pages (length pages))
              (length pages) reqs"
    by blast
  let ?n = "length pages" and ?cur = "cursorBefore pages (length pages)"
  show ?thesis
  proof (cases "int (length (validTitles pages)) < psize \<and> ?n < maxAttempts")
    case False
    then show ?thesis unfolding run by (simp add: collectShows_stop)
  next
    case room: True
    from assms(2) True room
    consider (err) e where "fetch ?n ?cur = Inl e"
      | (none) r where "fetch ?n ?cur = Inr r" "resp_shows r = []"
      unfolding passStops_def by blast
    then show ?thesis
    proof cases
      case err
      then show ?thesis unfolding run using room by (simp add: collectShows_error)
    next
      case none
      then show ?thesis unfolding run using room by (simp add: collectShows_empty_page)
    qed
  qed
next
  case False
  then have ne: "pages \<noteq> []" and stop: "\<not> hasMore (last pages) \<or> \<not> truthyOpt (nextCursor (last pages))"
    by auto
  from ne obtain front r where pr: "pages = front @ [r]" by (cases pages rule: rev_cases) auto
  note p = pagesFetched_snoc[OF assms(1)[unfolded pr]]
  from collectShows_after_pages[OF p(1) p(2)] obtain reqs where
    run: "collectShows psize fetch [] None 0 [] =
            collectShows psize fetch (validTitles front) (cursorBefore front (length front))
              (length front) reqs"
    by blast
  have "\<not> hasMore r \<or> \<not> truthyOpt (nextCursor r)" using stop pr by simp
  from collectShows_last[where fetch = fetch and attempts = "length front"
         and cursor = "cursorBefore front (length front)" and reqs = reqs,
         OF p(4) p(3) p(5) p(6) this]
  show ?thesis unfolding run pr by (simp add: validTitles_snoc)
qed

lemma pagesFetched_extend:
  assumes "pagesFetched psize fetch pages"
    and "pages = [] \<or> hasMore (last pages) \<and> truthyOpt (nextCursor (last pages))"
    and "length pages < maxAttempts" "int (length (validTitles pages)) < psize"
    and "fetch (length pages) (cursorBefore pages (length pages)) = Inr r" "resp_shows r \<noteq> []"
  shows "pagesFetched psize fetch (pages @ [r])"
  unfolding pagesFetched_def
proof (intro allI impI)
  fix i assume i: "i < length (pages @ [r])"
  show "i < maxAttempts \<and>
        int (length (validTitles (take i (pages @ [r])))) < psize \<and>
        fetch i (cursorBefore (pages @ [r]) i) = Inr ((pages @ [r]) ! i) \<and>
        resp_shows ((pages @ [r]) ! i) \<noteq> [] \<and>
        (Suc i < length (pages @ [r]) \<longrightarrow>
           hasMore ((pages @ [r]) ! i) \<and> truthyOpt (nextCursor ((pages @ [r]) ! i)))"
  proof (cases "i < length pages")
    case True
    then have old: "i < maxAttempts" "int (length (validTitles (take i pages))) < psize"
      "fetch i (cursorBefore pages i) = Inr (pages ! i)" "resp_shows (pages ! i) \<noteq> []"
      "Suc i < length pages \<longrightarrow> hasMore (pages ! i) \<and> truthyOpt (nextCursor (pages ! i))"
      using assms(1) unfolding pagesFetched_def by blast+
    have "hasMore (pages ! i) \<and> truthyOpt (nextCursor (pages ! i))"
    proof (cases "Suc i < length pages")
      case True
      with old(5) show ?thesis by simp
    next
      case False
      with True have "i = length pages - 1" "pages \<noteq> []" by auto
      with assms(2) show ?thesis by (simp add: last_conv_nth)
    qed
    with old True show ?thesis by (simp add: nth_append cursorBefore_snoc_old)
  next
    case False
    with i have "i = length pages" by simp
    with assms(3-6) show ?thesis by (simp add: cursorBefore_snoc_old)
  qed
qed

lemma pass_exists_from:
  "pagesFetched psize fetch pages \<Longrightarrow>
   pages = [] \<or> hasMore (last pages) \<and> truthyOpt (nextCursor (last pages)) \<Longrightarrow>
   \<exists>rest. pagesFetched psize fetch (pages @ rest) \<and> passStops psize fetch (pages @ rest)"
proof (induction "maxAttempts - length pages" arbitrary: pages rule: less_induct)
  case less
  let ?n = "length pages" and ?cur = "cursorBefore pages (length pages)"
  show ?case
  proof (cases "int (length (validTitles pages)) < psize \<and> ?n < maxAttempts")
    case False
    then have "passStops psize fetch (pages @ [])" by (auto simp: passStops_def)
    with less.prems(1) show ?thesis by (intro exI[of _ "[]"]) simp
  next
    case room: True
    show ?thesis
    proof (cases "fetch ?n ?cur")
      case (Inl e)
      then have "passStops psize fetch (pages @ [])" by (auto simp: passStops_def)
      with less.prems(1) show ?thesis by (intro exI[of _ "[]"]) simp
    next
      case (Inr r)
      show ?thesis
      proof (cases "resp_shows r = []")
        case True
        with Inr have "passStops psize fetch (pages @ [])" by (auto simp: passStops_def)
        with less.prems(1) show ?thesis by (intro exI[of _ "[]"]) simp
      next
        case ne: False
        have ext: "pagesFetched psize fetch (pages @ [r])"
          using pagesFetched_extend[OF less.prems(1,2) _ _ Inr ne] room by simp
        show ?thesis
        proof (cases "hasMore r \<and> truthyOpt (nextCursor r)")
          case False
          then have "passStops psize fetch (pages @ [r])" by (auto simp: passStops_def)
          with ext show ?thesis by blast
        next
          case True
          have "maxAttempts - length (pages @ [r]) < maxAttempts - length pages"
            using room by (simp add: diff_less_mono2)
          from less.hyps[OF this ext] True
          obtain rest where "pagesFetched psize fetch ((pages @ [r]) @ rest)"
            "passStops psize fetch ((pages @ [r]) @ rest)"
            by auto
          then show ?thesis by (intro exI[of _ "r # rest"]) simp
        qed
      qed
    qed
  qed
qed

lemma pass_exists: "\<exists>pages. pagesFetched psize fetch pages \<and> passStops psize fetch pages"
  using pass_exists_from[of psize fetch "[]"] by (simp add: pagesFetched_def)

text \<open>
  C5.  A call of \<open>refreshPool\<close> that is not a no-op replaces the pool at its key by the
  collected valid titles, cut to the pool size, with the new timestamp, when at least
  one title was collected, and leaves pools and metadata as they were when none was;
  the other pools are untouched in both cases.  The collected titles are the valid
  titles of all the pages read in the pass, in order: every upstream has a sequence of
  pages after which the pass stops, and for every such sequence the pool is installed
  from its valid titles when there is one and left alone when there is none.  In
  particular, when the request after some pages fails, the valid titles of those pages
  are installed.
\<close>

theorem refreshPool_updates_iff_collected:
  assumes "poolKey \<notin> isRefreshing c"
  shows
    "(fst (collectShows (poolSize (config c)) fetch [] None 0 []) \<noteq> [] \<longrightarrow>
        map_of (pools (fst (refreshPool c poolKey ctry t fetch now))) poolKey =
          Some \<lparr>pool_shows = take (nat (poolSize (config c)))
                               (fst (collectShows (poolSize (config c)) fetch [] None 0 [])),
                lastUpdate = now, pool_country = ctry, pool_showType = showTypeOrAny t\<rparr>) \<and>
     (fst (collectShows (poolSize (config c)) fetch [] None 0 []) = [] \<longrightarrow>
        pools (fst (refreshPool c poolKey ctry t fetch now)) = pools c \<and>
        metadata (fst (refreshPool c poolKey ctry t fetch now)) = metadata c) \<and>
     (\<forall>k. k \<noteq> poolKey \<longrightarrow>
        map_of (pools (fst (refreshPool c poolKey ctry t fetch now))) k = map_of (pools c) k) \<and>
     (\<forall>s\<in>set (fst (collectShows (poolSize (config c)) fetch [] None 0 [])). validShow s) \<and>
     (\<forall>acc cursor n reqs e.
        int (length acc) < poolSize (config c) \<and> n < maxAttempts \<and> fetch n cursor = Inl e \<longrightarrow>
        collectShows (poolSize (config c)) fetch acc cursor n reqs = (acc, reqs @ [cursor])) \<and>
     (\<exists>pages. pagesFetched (poolSize (config c)) fetch pages \<and>
              passStops (poolSize (config c)) fetch pages) \<and>
     (\<forall>pages.
        pagesFetched (poolSize (config c)) fetch pages \<and> passStops (poolSize (config c)) fetch pages \<longrightarrow>
        fst (collectShows (poolSize (config c)) fetch [] None 0 []) = validTitles pages \<and>
        (validTitles pages \<noteq> [] \<longrightarrow>
           map_of (pools (fst (refreshPool c poolKey ctry t fetch now))) poolKey =
             Some \<lparr>pool_shows = take (nat (poolSize (config c))) (validTitles pages),
                   lastUpdate = now, pool_country = ctry, pool_showType = showTypeOrAny t\<rparr>) \<and>
        (validTitles pages = [] \<longrightarrow>
           pools (fst (refreshPool c poolKey ctry t fetch now)) = pools c \<and>
           metadata (fst (refreshPool c poolKey ctry t fetch now)) = metadata c)) \<and>
     (\<forall>pages e.
        pagesFetched (poolSize (config c)) fetch pages \<and>
        fetch (length pages) (cursorBefore pages (length pages)) = Inl e \<and>
        validTitles pages \<noteq> [] \<longrightarrow>
        map_of (pools (fst (refreshPool c poolKey ctry t fetch now))) poolKey =
          Some \<lparr>pool_shows = take (nat (poolSize (config c))) (validTitles pages),
                lastUpdate = now, pool_country = ctry, pool_showType = showTypeOrAny t\<rparr>)"
proof -
  let ?ps = "poolSize (config c)"
  let ?col = "fst (collectShows ?ps fetch [] None 0 [])"
  let ?c' = "fst (refreshPool c poolKey ctry t fetch now)"
  have inst: "?col \<noteq> [] \<longrightarrow>
        map_of (pools ?c') poolKey =
          Some \<lparr>pool_shows = take (nat ?ps) ?col,
                lastUpdate = now, pool_country = ctry, pool_showType = showTypeOrAny t\<rparr>"
    using refreshPool_installed_pool[OF assms, of fetch ctry t now] by blast
  have keep: "?col = [] \<longrightarrow> pools ?c' = pools c \<and> metadata ?c' = metadata c"
    using refreshPool_pools_empty[OF assms, of fetch ctry t now] by blast
  have other: "\<forall>k. k \<noteq> poolKey \<longrightarrow> map_of (pools ?c') k = map_of (pools c) k"
    using refreshPool_other_pools[of _ poolKey c ctry t fetch now] by blast
  have valid: "\<forall>s\<in>set ?col. validShow s"
    by (rule collectShows_valid)
  have err: "\<forall>acc cursor n reqs e.
        int (length acc) < ?ps \<and> n < maxAttempts \<and> fetch n cursor = Inl e \<longrightarrow>
        collectShows ?ps fetch acc cursor n reqs = (acc, reqs @ [cursor])"
    using collectShows_error[of _ ?ps _ fetch] by blast
  have ex: "\<exists>pages. pagesFetched ?ps fetch pages \<and> passStops ?ps fetch pages"
    by (rule pass_exists)
  have pass: "?col = validTitles pages \<and>
        (validTitles pages \<noteq> [] \<longrightarrow>
           map_of (pools ?c') poolKey =
             Some \<lparr>pool_shows = take (nat ?ps) (validTitles pages),
                   lastUpdate = now, pool_country = ctry, pool_showType = showTypeOrAny t\<rparr>) \<and>
        (validTitles pages = [] \<longrightarrow> pools ?c' = pools c \<and> metadata ?c' = metadata c)"
    if "pagesFetched ?ps fetch pages" "passStops ?ps fetch pages" for pages
    using inst keep unfolding collectShows_pass[OF that] by blast
  have mid: "map_of (pools ?c') poolKey =
          Some \<lparr>pool_shows = take (nat ?ps) (validTitles pages),
                lastUpdate = now, pool_country = ctry, pool_showType = showTypeOrAny t\<rparr>"
    if p: "pagesFetched ?ps fetch pages"
      and e: "fetch (length pages) (cursorBefore pages (length pages)) = Inl e"
      and ne: "validTitles pages \<noteq> []" for pages e
  proof -
    have "passStops ?ps fetch pages" using e by (auto simp: passStops_def)
    from pass[OF p this] ne show ?thesis by blast
  qed
  from inst keep other valid err ex pass mid show ?thesis by blast
qed

lemma collectShows_fetchThenFail:
  "collectShows 200 fetchThenFail [] None 0 [] =
     ([mkShow ''A'' 90, mkShow ''B'' 60], [None, Some ''c1''])"
proof -
  have v: "validShow (mkShow i r)" for i r
    by (simp add: validShow_def mkShow_def truthy_def truthyOpt_def)
  have "collectShows 200 fetchThenFail [] None 0 [] =
          collectShows 200 fetchThenFail [mkShow ''A'' 90, mkShow ''B'' 60] (Some ''c1'') 1 [None]"
    by (subst collectShows.simps)
       (simp add: fetchThenFail_def maxAttempts_def v truthyOpt_def truthy_def Let_def)
  also have "\<dots> = ([mkShow ''A'' 90, mkShow ''B'' 60], [None, Some ''c1''])"
    by (rule trans[OF collectShows_error[where e = "APIError ''503''"]])
       (simp_all add: fetchThenFail_def maxAttempts_def)
  finally show ?thesis .
qed

lemma collectShows_fetchDown: "0 < psize \<Longrightarrow> collectShows psize fetchDown [] None 0 [] = ([], [None])"
  by (rule trans[OF collectShows_error[where e = "APIError ''503''"]])
     (simp_all add: fetchDown_def maxAttempts_def)

lemma pagesFetched_example: "pagesFetched 200 fetchTwoThenFail [pageOne, pageTwo]"
proof -
  have v: "validShow (mkShow i r)" for i r
    by (simp add: validShow_def mkShow_def truthy_def truthyOpt_def)
  show ?thesis
    by (simp add: pagesFetched_def All_less_Suc maxAttempts_def validTitles_def cursorBefore_def
        fetchTwoThenFail_def pageOne_def pageTwo_def v truthy_def truthyOpt_def)
qed

lemma validTitles_example:
  "validTitles [pageOne, pageTwo] = [mkShow ''A'' 90, mkShow ''B'' 60, mkShow ''C'' 70]"
  by (simp add: validTitles_def pageOne_def pageTwo_def validShow_def mkShow_def invalidShow_def
      truthy_def truthyOpt_def)

theorem refreshPool_updates_iff_collected_witness:
  "''us-movie'' \<notin> isRefreshing (exampleCache [mkShow ''Old'' 50]) \<and>
   fst (collectShows (poolSize (config (exampleCache [mkShow ''Old'' 50]))) fetchThenFail [] None 0 [])
     = [mkShow ''A'' 90, mkShow ''B'' 60] \<and>
   map_of (pools (fst (refreshPool (exampleCache [mkShow ''Old'' 50]) ''us-movie'' ''us'' (Some Movie)
                         fetchThenFail 5000))) ''us-movie''
     = Some \<lparr>pool_shows = [mkShow ''A'' 90, mkShow ''B'' 60], lastUpdate = 5000,
             pool_country = ''us'', pool_showType = TMovie\<rparr> \<and>
   fst (collectShows (poolSize (config (exampleCache [mkShow ''Old'' 50]))) fetchDown [] None 0 []) = [] \<and>
   pools (fst (refreshPool (exampleCache [mkShow ''Old'' 50]) ''us-movie'' ''us'' (Some Movie)
                 fetchDown 5000))
     = pools (exampleCache [mkShow ''Old'' 50]) \<and>
   pagesFetched (poolSize (config (exampleCache [mkShow ''Old'' 50]))) fetchTwoThenFail [pageOne, pageTwo] \<and>
   fetchTwoThenFail (length [pageOne, pageTwo]) (cursorBefore [pageOne, pageTwo] (length [pageOne, pageTwo]))
     = Inl (APIError ''503'') \<and>
   fst (collectShows (poolSize (config (exampleCache [mkShow ''Old'' 50]))) fetchTwoThenFail [] None 0 [])
     = [mkShow ''A'' 90, mkShow ''B'' 60, mkShow ''C'' 70] \<and>
   map_of (pools (fst (refreshPool (exampleCache [mkShow ''Old'' 50]) ''us-movie'' ''us'' (Some Movie)
                         fetchTwoThenFail 5000))) ''us-movie''
     = Some \<lparr>pool_shows = [mkShow ''A'' 90, mkShow ''B'' 60, mkShow ''C'' 70], lastUpdate = 5000,
             pool_country = ''us'', pool_showType = TMovie\<rparr>"
proof -
  let ?c = "exampleCache [mkShow ''Old'' 50]"
  have k: "''us-movie'' \<notin> isRefreshing ?c" by (simp add: exampleCache_def)
  have ps: "poolSize (config ?c) = 200" by (simp add: exampleCache_def exampleConfig_def)
  have c1: "fst (collectShows (poolSize (config ?c)) fetchThenFail [] None 0 [])
              = [mkShow ''A'' 90, mkShow ''B'' 60]"
    unfolding ps collectShows_fetchThenFail by simp
  have c2: "fst (collectShows (poolSize (config ?c)) fetchDown [] None 0 []) = []"
    unfolding ps by (simp add: collectShows_fetchDown)
  note t1 = refreshPool_updates_iff_collected[OF k, where fetch = fetchThenFail and ctry = "''us''"
                and t = "Some Movie" and now = 5000]
  note t2 = refreshPool_updates_iff_collected[OF k, where fetch = fetchDown and ctry = "''us''"
                and t = "Some Movie" and now = 5000]
  note t3 = refreshPool_updates_iff_collected[OF k, where fetch = fetchTwoThenFail and ctry = "''us''"
                and t = "Some Movie" and now = 5000]
  have i: "map_of (pools (fst (refreshPool ?c ''us-movie'' ''us'' (Some Movie) fetchThenFail 5000))) ''us-movie''
     = Some \<lparr>pool_shows = [mkShow ''A'' 90, mkShow ''B'' 60], lastUpdate = 5000,
             pool_country = ''us'', pool_showType = TMovie\<rparr>"
    using conjunct1[OF t1] unfolding c1 by (simp add: ps showTypeOrAny_def)
  have u: "pools (fst (refreshPool ?c ''us-movie'' ''us'' (Some Movie) fetchDown 5000)) = pools ?c"
    using conjunct1[OF conjunct2[OF t2]] c2 by simp
  have p: "pagesFetched (poolSize (config ?c)) fetchTwoThenFail [pageOne, pageTwo]"
    unfolding ps by (rule pagesFetched_example)
  have e: "fetchTwoThenFail (length [pageOne, pageTwo])
             (cursorBefore [pageOne, pageTwo] (length [pageOne, pageTwo])) = Inl (APIError ''503'')"
    by (simp add: fetchTwoThenFail_def)
  have st: "passStops (poolSize (config ?c)) fetchTwoThenFail [pageOne, pageTwo]"
    unfolding passStops_def using e by blast
  have ne: "validTitles [pageOne, pageTwo] \<noteq> []" by (simp add: validTitles_example)
  have c3: "fst (collectShows (poolSize (config ?c)) fetchTwoThenFail [] None 0 [])
              = [mkShow ''A'' 90, mkShow ''B'' 60, mkShow ''C'' 70]"
    using t3 p st unfolding validTitles_example[symmetric] by blast
  have "map_of (pools (fst (refreshPool ?c ''us-movie'' ''us'' (Some Movie) fetchTwoThenFail 5000))) ''us-movie''
     = Some \<lparr>pool_shows = take (nat (poolSize (config ?c))) (validTitles [pageOne, pageTwo]),
             lastUpdate = 5000, pool_country = ''us'', pool_showType = showTypeOrAny (Some Movie)\<rparr>"
    using t3 p e ne by blast
  then have i3: "map_of (pools (fst (refreshPool ?c ''us-movie'' ''us'' (Some Movie) fetchTwoThenFail 5000))) ''us-movie''
     = Some \<lparr>pool_shows = [mkShow ''A'' 90, mkShow ''B'' 60, mkShow ''C'' 70], lastUpdate = 5000,
             pool_country = ''us'', pool_showType = TMovie\<rparr>"
    unfolding validTitles_example ps by (simp add: showTypeOrAny_def)
  from k c1 i c2 u p e c3 i3 show ?thesis by blast
qed

text \<open>
  C4.  Starting from the pools created at start-up, with a pool size that is not
  negative, no sequence of refresh starts, refresh completions and reads leaves a pool
  longer than the configured pool size, and every single call of \<open>refreshPool\<close> keeps
  that bound.  A refresh that installs a list installs the first \<open>poolSize\<close> titles it
  collected from the upstream: the pool it leaves at its key is the same whatever the
  pools held before.
\<close>

theorem pool_size_bounded:
  assumes "0 \<le> poolSize cfg"
  shows
    "poolsBounded (sys_cache (cacheRun (initialSys cfg) evs)) \<and>
     (poolsBounded c \<longrightarrow> poolsBounded (fst (refreshPool c poolKey ctry t fetch now))) \<and>
     (poolKey \<notin> isRefreshing c \<and> fst (collectShows (poolSize (config c)) fetch [] None 0 []) \<noteq> [] \<longrightarrow>
        map_of (pools (fst (refreshPool c poolKey ctry t fetch now))) poolKey =
          Some \<lparr>pool_shows = take (nat (poolSize (config c)))
                               (fst (collectShows (poolSize (config c)) fetch [] None 0 [])),
                lastUpdate = now, pool_country = ctry, pool_showType = showTypeOrAny t\<rparr>) \<and>
     (\<forall>c2. config c2 = config c \<and> poolKey \<notin> isRefreshing c \<and> poolKey \<notin> isRefreshing c2 \<and>
           fst (collectShows (poolSize (config c)) fetch [] None 0 []) \<noteq> [] \<longrightarrow>
        map_of (pools (fst (refreshPool c2 poolKey ctry t fetch now))) poolKey =
        map_of (pools (fst (refreshPool c poolKey ctry t fetch now))) poolKey)"
proof -
  have run: "poolsBounded (sys_cache (cacheRun (initialSys cfg) evs))"
    using poolsBounded_run[OF poolsBounded_initial[OF assms], of evs] by blast
  have one: "poolsBounded c \<longrightarrow> poolsBounded (fst (refreshPool c poolKey ctry t fetch now))"
    using refreshPool_bounded by blast
  have inst: "poolKey \<notin> isRefreshing c \<and> fst (collectShows (poolSize (config c)) fetch [] None 0 []) \<noteq> [] \<longrightarrow>
        map_of (pools (fst (refreshPool c poolKey ctry t fetch now))) poolKey =
          Some \<lparr>pool_shows = take (nat (poolSize (config c)))
                               (fst (collectShows (poolSize (config c)) fetch [] None 0 [])),
                lastUpdate = now, pool_country = ctry, pool_showType = showTypeOrAny t\<rparr>"
    using refreshPool_installed_pool by blast
  have whole: "map_of (pools (fst (refreshPool c2 poolKey ctry t fetch now))) poolKey =
        map_of (pools (fst (refreshPool c poolKey ctry t fetch now))) poolKey"
    if "config c2 = config c" "poolKey \<notin> isRefreshing c" "poolKey \<notin> isRefreshing c2"
       "fst (collectShows (poolSize (config c)) fetch [] None 0 []) \<noteq> []" for c2
    using refreshPool_installed_pool[OF that(2,4), of ctry t now]
          refreshPool_installed_pool[OF that(3), of fetch ctry t now] that(1,4)
    by simp
  from run one inst whole show ?thesis by blast
qed

lemma collectShows_small:
  "collectShows 1 fetchThenFail [] None 0 [] = ([mkShow ''A'' 90, mkShow ''B'' 60], [None])"
proof -
  have v: "validShow (mkShow i r)" for i r
    by (simp add: validShow_def mkShow_def truthy_def truthyOpt_def)
  have "collectShows 1 fetchThenFail [] None 0 [] =
          collectShows 1 fetchThenFail [mkShow ''A'' 90, mkShow ''B'' 60] (Some ''c1'') 1 [None]"
    by (subst collectShows.simps)
       (simp add: fetchThenFail_def maxAttempts_def v truthyOpt_def truthy_def Let_def)
  also have "\<dots> = ([mkShow ''A'' 90, mkShow ''B'' 60], [None])"
    by (rule collectShows_stop) simp
  finally show ?thesis .
qed

theorem pool_size_bounded_witness:
  "0 \<le> poolSize smallConfig \<and>
   poolsBounded (sys_cache (cacheRun (initialSys smallConfig)
      [StartRefresh ''us-movie'' ''us'' (Some Movie), CompleteRefresh ''us-movie'' fetchThenFail 5000])) \<and>
   poolsBounded ((exampleCache [mkShow ''Old'' 50])\<lparr>config := smallConfig\<rparr>) \<and>
   ''us-movie'' \<notin> isRefreshing ((exampleCache [mkShow ''Old'' 50])\<lparr>config := smallConfig\<rparr>) \<and>
   fst (collectShows (poolSize smallConfig) fetchThenFail [] None 0 [])
     = [mkShow ''A'' 90, mkShow ''B'' 60] \<and>
   map_of (pools (fst (refreshPool ((exampleCache [mkShow ''Old'' 50])\<lparr>config := smallConfig\<rparr>)
                         ''us-movie'' ''us'' (Some Movie) fetchThenFail 5000))) ''us-movie''
     = Some \<lparr>pool_shows = [mkShow ''A'' 90], lastUpdate = 5000,
             pool_country = ''us'', pool_showType = TMovie\<rparr>"
proof -
  let ?c = "(exampleCache [mkShow ''Old'' 50])\<lparr>config := smallConfig\<rparr>"
  have h: "0 \<le> poolSize smallConfig" by (simp add: smallConfig_def)
  have ps: "poolSize (config ?c) = 1" "poolSize smallConfig = 1" by (simp_all add: smallConfig_def)
  have k: "''us-movie'' \<notin> isRefreshing ?c" by (simp add: exampleCache_def)
  have b: "poolsBounded ?c" by (simp add: poolsBounded_def exampleCache_def smallConfig_def)
  have col: "fst (collectShows (poolSize (config ?c)) fetchThenFail [] None 0 []) \<noteq> []"
    "fst (collectShows (poolSize smallConfig) fetchThenFail [] None 0 [])
       = [mkShow ''A'' 90, mkShow ''B'' 60]"
    unfolding ps collectShows_small by simp_all
  note t = pool_size_bounded[OF h, where c = ?c and poolKey = "''us-movie''" and fetch = fetchThenFail
             and ctry = "''us''" and t = "Some Movie" and now = 5000
             and evs = "[StartRefresh ''us-movie'' ''us'' (Some Movie),
                         CompleteRefresh ''us-movie'' fetchThenFail 5000]"]
  have run: "poolsBounded (sys_cache (cacheRun (initialSys smallConfig)
      [StartRefresh ''us-movie'' ''us'' (Some Movie), CompleteRefresh ''us-movie'' fetchThenFail 5000]))"
    using t by blast
  have "map_of (pools (fst (refreshPool ?c ''us-movie'' ''us'' (Some Movie) fetchThenFail 5000))) ''us-movie'' =
          Some \<lparr>pool_shows = take (nat (poolSize (config ?c)))
                               (fst (collectShows (poolSize (config ?c)) fetchThenFail [] None 0 [])),
                lastUpdate = 5000, pool_country = ''us'', pool_showType = showTypeOrAny (Some Movie)\<rparr>"
    using t k col(1) by blast
  then have inst: "map_of (pools (fst (refreshPool ?c ''us-movie'' ''us'' (Some Movie) fetchThenFail 5000))) ''us-movie''
     = Some \<lparr>pool_shows = [mkShow ''A'' 90], lastUpdate = 5000,
             pool_country = ''us'', pool_showType = TMovie\<rparr>"
    unfolding ps collectShows_small by (simp add: showTypeOrAny_def)
  from h run b k col(2) inst show ?thesis by blast
qed

lemma find_append_key:
  "k \<notin> fst ` set xs \<Longrightarrow> find (\<lambda>task. fst task = k) (xs @ [(k, v)]) = Some (k, v)"
  by (induction xs) auto

lemma remove1_append_absent: "x \<notin> set xs \<Longrightarrow> remove1 x (xs @ [x]) = xs"
  by (induction xs) auto

lemma cacheStep_start_twice:
  "cacheStep (cacheStep sys (StartRefresh poolKey ctry t)) (StartRefresh poolKey ctry' t')
     = cacheStep sys (StartRefresh poolKey ctry t)"
  by (simp add: refreshPool_enter_def)

lemma two_calls_one_pass:
  assumes "flightInv sys" "poolKey \<notin> isRefreshing (sys_cache sys)"
  shows "cacheRun sys [StartRefresh poolKey ctry t, StartRefresh poolKey ctry' t',
                       CompleteRefresh poolKey fetch now, CompleteRefresh poolKey fetch' now']
         = sys\<lparr>sys_cache := fst (refreshPool (sys_cache sys) poolKey ctry t fetch now),
               upstreamLog := upstreamLog sys @
                 map (Pair poolKey) (snd (refreshPool (sys_cache sys) poolKey ctry t fetch now))\<rparr>"
proof -
  let ?c = "sys_cache sys"
  let ?c1 = "?c\<lparr>isRefreshing := insert poolKey (isRefreshing ?c)\<rparr>"
  let ?s1 = "sys\<lparr>sys_cache := ?c1, inFlight := inFlight sys @ [(poolKey, ctry, t)]\<rparr>"
  let ?col = "collectShows (poolSize (config ?c)) fetch [] None 0 []"
  let ?c3 = "refreshPool_finally (updatePool ?c1 poolKey ctry t (fst ?col) now) poolKey"
  let ?s3 = "sys\<lparr>sys_cache := ?c3, upstreamLog := upstreamLog sys @ map (Pair poolKey) (snd ?col)\<rparr>"
  have k: "poolKey \<notin> fst ` set (inFlight sys)"
    using assms by (simp add: flightInv_def)
  then have notin: "(poolKey, ctry, t) \<notin> set (inFlight sys)" by force
  have s1: "cacheStep sys (StartRefresh poolKey ctry t) = ?s1"
    using assms(2) by (simp add: refreshPool_enter_def)
  have s2: "cacheStep ?s1 (StartRefresh poolKey ctry' t') = ?s1"
    by (simp add: refreshPool_enter_def)
  have s3: "cacheStep ?s1 (CompleteRefresh poolKey fetch now) = ?s3"
    by (simp add: find_append_key[OF k] remove1_append_absent[OF notin] split_beta Let_def)
  have s4: "cacheStep ?s3 (CompleteRefresh poolKey fetch' now') = ?s3"
    using k by (simp add: find_key_None[THEN iffD2])
  have "cacheRun sys [StartRefresh poolKey ctry t, StartRefresh poolKey ctry' t',
                       CompleteRefresh poolKey fetch now, CompleteRefresh poolKey fetch' now'] = ?s3"
    by (simp only: cacheRun_def foldl.simps s1 s2 s3 s4)
  then show ?thesis
    using assms(2) by (simp add: refreshPool_entered)
qed

text \<open>
  C6.  A call of \<open>refreshPool\<close> on a key that is marked in flight returns the cache as
  it is and sends no request.  A call that enters leaves the set of markers as it found
  it, so its own marker is gone at its exit, whatever the upstream answered, errors
  included.  In every run from the initial cache the keys of the calls in flight are
  distinct and are exactly the marked keys.  Of two calls started for one key while none
  was in flight, the second changes nothing, and after the completion the upstream has
  received the requests of one pass only.
\<close>

theorem refresh_single_flight:
  "(poolKey \<in> isRefreshing c \<longrightarrow> refreshPool c poolKey ctry t fetch now = (c, [])) \<and>
   (poolKey \<notin> isRefreshing c \<longrightarrow>
      isRefreshing (fst (refreshPool c poolKey ctry t fetch now)) = isRefreshing c) \<and>
   distinct (map fst (inFlight (cacheRun (initialSys cfg) evs))) \<and>
   isRefreshing (sys_cache (cacheRun (initialSys cfg) evs))
     = fst ` set (inFlight (cacheRun (initialSys cfg) evs)) \<and>
   cacheStep (cacheStep sys (StartRefresh poolKey ctry t)) (StartRefresh poolKey ctry' t')
     = cacheStep sys (StartRefresh poolKey ctry t) \<and>
   (flightInv sys \<and> poolKey \<notin> isRefreshing (sys_cache sys) \<longrightarrow>
      cacheRun sys [StartRefresh poolKey ctry t, StartRefresh poolKey ctry' t',
                    CompleteRefresh poolKey fetch now, CompleteRefresh poolKey fetch' now']
        = sys\<lparr>sys_cache := fst (refreshPool (sys_cache sys) poolKey ctry t fetch now),
              upstreamLog := upstreamLog sys @
                map (Pair poolKey) (snd (refreshPool (sys_cache sys) poolKey ctry t fetch now))\<rparr>)"
proof -
  have inv: "flightInv (cacheRun (initialSys cfg) evs)"
    by (rule flightInv_run[OF flightInv_initial])
  show ?thesis
    using refreshPool_in_flight[of poolKey c ctry t fetch now]
          refreshPool_marker[of poolKey c ctry t fetch now]
          inv cacheStep_start_twice[of sys poolKey ctry t ctry' t']
          two_calls_one_pass[of sys poolKey ctry t ctry' t' fetch now fetch' now']
    unfolding flightInv_def by blast
qed

theorem refresh_single_flight_witness:
  "refreshPool ((exampleCache [mkShow ''Old'' 50])\<lparr>isRefreshing := {''us-movie''}\<rparr>)
      ''us-movie'' ''us'' (Some Movie) fetchThenFail 5000
     = ((exampleCache [mkShow ''Old'' 50])\<lparr>isRefreshing := {''us-movie''}\<rparr>, []) \<and>
   isRefreshing (fst (refreshPool (exampleCache [mkShow ''Old'' 50]) ''us-movie'' ''us'' (Some Movie)
                        fetchDown 5000)) = {} \<and>
   isRefreshing (fst (refreshPool (exampleCache [mkShow ''Old'' 50]) ''us-movie'' ''us'' (Some Movie)
                        fetchThenFail 5000)) = {} \<and>
   flightInv (initialSys exampleConfig) \<and>
   upstreamLog (cacheRun (initialSys exampleConfig)
      [StartRefresh ''us-movie'' ''us'' (Some Movie), StartRefresh ''us-movie'' ''us'' (Some Movie),
       CompleteRefresh ''us-movie'' fetchThenFail 5000, CompleteRefresh ''us-movie'' fetchThenFail 6000])
     = [(''us-movie'', None), (''us-movie'', Some ''c1'')] \<and>
   isRefreshing (sys_cache (cacheRun (initialSys exampleConfig)
      [StartRefresh ''us-movie'' ''us'' (Some Movie), StartRefresh ''us-movie'' ''us'' (Some Movie),
       CompleteRefresh ''us-movie'' fetchThenFail 5000, CompleteRefresh ''us-movie'' fetchThenFail 6000]))
     = {}"
proof -
  let ?busy = "(exampleCache [mkShow ''Old'' 50])\<lparr>isRefreshing := {''us-movie''}\<rparr>"
  let ?c = "exampleCache [mkShow ''Old'' 50]"
  let ?s = "initialSys exampleConfig"
  have b: "''us-movie'' \<in> isRefreshing ?busy" by simp
  have k: "''us-movie'' \<notin> isRefreshing ?c" "isRefreshing ?c = {}" by (simp_all add: exampleCache_def)
  have inv: "flightInv ?s" by (rule flightInv_initial)
  have k0: "''us-movie'' \<notin> isRefreshing (sys_cache ?s)" "isRefreshing (sys_cache ?s) = {}"
    "upstreamLog ?s = []" "poolSize (config (sys_cache ?s)) = 200"
    by (simp_all add: initialSys_def newCache_def exampleConfig_def)
  note t1 = refresh_single_flight[where c = ?busy and poolKey = "''us-movie''" and ctry = "''us''"
              and t = "Some Movie" and fetch = fetchThenFail and now = 5000]
  note t2 = refresh_single_flight[where c = ?c and poolKey = "''us-movie''" and ctry = "''us''"
              and t = "Some Movie" and fetch = fetchDown and now = 5000]
  note t3 = refresh_single_flight[where c = ?c and poolKey = "''us-movie''" and ctry = "''us''"
              and t = "Some Movie" and fetch = fetchThenFail and now = 5000 and sys = ?s
              and ctry' = "''us''" and t' = "Some Movie" and fetch' = fetchThenFail and now' = 6000]
  have w1: "refreshPool ?busy ''us-movie'' ''us'' (Some Movie) fetchThenFail 5000 = (?busy, [])"
    using t1 b by blast
  have w2: "isRefreshing (fst (refreshPool ?c ''us-movie'' ''us'' (Some Movie) fetchDown 5000)) = {}"
    using t2 k by simp
  have w3: "isRefreshing (fst (refreshPool ?c ''us-movie'' ''us'' (Some Movie) fetchThenFail 5000)) = {}"
    using t3 k by simp
  have run: "cacheRun ?s
      [StartRefresh ''us-movie'' ''us'' (Some Movie), StartRefresh ''us-movie'' ''us'' (Some Movie),
       CompleteRefresh ''us-movie'' fetchThenFail 5000, CompleteRefresh ''us-movie'' fetchThenFail 6000]
     = ?s\<lparr>sys_cache := fst (refreshPool (sys_cache ?s) ''us-movie'' ''us'' (Some Movie) fetchThenFail 5000),
           upstreamLog := upstreamLog ?s @
             map (Pair ''us-movie'') (snd (refreshPool (sys_cache ?s) ''us-movie'' ''us'' (Some Movie) fetchThenFail 5000))\<rparr>"
    using t3 inv k0(1) by blast
  have reqs: "snd (refreshPool (sys_cache ?s) ''us-movie'' ''us'' (Some Movie) fetchThenFail 5000)
                = [None, Some ''c1'']"
    by (simp add: refreshPool_entered[OF k0(1)] k0(4) collectShows_fetchThenFail)
  have w5: "upstreamLog (cacheRun ?s
      [StartRefresh ''us-movie'' ''us'' (Some Movie), StartRefresh ''us-movie'' ''us'' (Some Movie),
       CompleteRefresh ''us-movie'' fetchThenFail 5000, CompleteRefresh ''us-movie'' fetchThenFail 6000])
     = [(''us-movie'', None), (''us-movie'', Some ''c1'')]"
    unfolding run by (simp add: reqs k0(3))
  have w6: "isRefreshing (sys_cache (cacheRun ?s
      [StartRefresh ''us-movie'' ''us'' (Some Movie), StartRefresh ''us-movie'' ''us'' (Some Movie),
       CompleteRefresh ''us-movie'' fetchThenFail 5000, CompleteRefresh ''us-movie'' fetchThenFail 6000]))
     = {}"
    unfolding run by (simp add: refreshPool_marker[OF k0(1)] k0(2))
  from w1 w2 w3 inv w5 w6 show ?thesis by blast
qed

lemma getRandomShow_miss:
  assumes "case map_of (pools c) (getPoolKey ctry t) of
             None \<Rightarrow> True
           | Some pool \<Rightarrow> isPoolExpired c pool now \<or> pool_shows pool = []"
    and "getPoolKey ctry t \<notin> isRefreshing c" and "0 < poolSize (config c)"
  shows "getRandomShow c ctry t now r =
           (None,
            (recordCacheMiss c)\<lparr>isRefreshing := insert (getPoolKey ctry t) (isRefreshing c)\<rparr>,
            Some (getPoolKey ctry t))"
  using assms
  by (auto simp: getRandomShow_def Let_def triggerRefresh_cases recordCacheMiss_def
      split: option.splits)

lemma getRandomShows_no_result:
  assumes "case map_of (pools c) (getPoolKey ctry t) of
             None \<Rightarrow> True
           | Some pool \<Rightarrow> isPoolExpired c pool now \<or> pool_shows pool = []"
  shows "getRandomShows c ctry count t now perm = []"
  using assms by (auto simp: getRandomShows_def Let_def split: option.splits)

text \<open>
  C7, at the failing input.  On an empty pool and on an expired pool \<open>getRandomShows\<close>
  returns the empty list; it has no access to \<open>refreshPool\<close> and starts nothing, whereas
  \<open>getRandomShow\<close> on the same expired pool returns no show and leaves the pool marked
  in flight.  \<open>discover\<close>, which reads through \<open>getRandomShows\<close> only, fails on the
  expired pool.
\<close>

theorem getRandomShows_starts_no_refresh:
  "getRandomShows (exampleCache []) ''us'' 20 (Some Movie) 2000 [] = [] \<and>
   getRandomShows (exampleCache [mkShow ''X'' 80]) ''us'' 20 (Some Movie) 21601001 [0] = [] \<and>
   getRandomShow (exampleCache [mkShow ''X'' 80]) ''us'' (Some Movie) 21601001 0
     = (None,
        (recordCacheMiss (exampleCache [mkShow ''X'' 80]))\<lparr>isRefreshing := {''us-movie''}\<rparr>,
        Some ''us-movie'') \<and>
   discover emptyService (movieConfig None) (Some ''u1'') expiredEnv expiredEnv
     = (Inl (NoContentFound ''No Netflix movie found for us''), emptyService)"
proof -
  have key: "getPoolKey ''us'' (Some Movie) = ''us-movie''"
    by (simp add: getPoolKey_def showKindName_def)
  have e1: "case map_of (pools (exampleCache [])) (getPoolKey ''us'' (Some Movie)) of
             None \<Rightarrow> True
           | Some pool \<Rightarrow> isPoolExpired (exampleCache []) pool 2000 \<or> pool_shows pool = []"
    by (simp add: key exampleCache_def)
  have e2: "case map_of (pools (exampleCache [mkShow ''X'' 80])) (getPoolKey ''us'' (Some Movie)) of
             None \<Rightarrow> True
           | Some pool \<Rightarrow> isPoolExpired (exampleCache [mkShow ''X'' 80]) pool 21601001 \<or> pool_shows pool = []"
    by (simp add: key exampleCache_def exampleConfig_def isPoolExpired_def)
  have r1: "getRandomShows (exampleCache []) ''us'' 20 (Some Movie) 2000 [] = []"
    by (rule getRandomShows_no_result[OF e1])
  have r2: "getRandomShows (exampleCache [mkShow ''X'' 80]) ''us'' 20 (Some Movie) 21601001 [0] = []"
    by (rule getRandomShows_no_result[OF e2])
  have r3: "getRandomShow (exampleCache [mkShow ''X'' 80]) ''us'' (Some Movie) 21601001 0
     = (None,
        (recordCacheMiss (exampleCache [mkShow ''X'' 80]))\<lparr>isRefreshing := {''us-movie''}\<rparr>,
        Some ''us-movie'')"
    using getRandomShow_miss[OF e2, of 0]
    by (simp add: key exampleCache_def exampleConfig_def)
  have cands: "getCandidates cfg expiredEnv = []"
    if "showType cfg = Some TMovie" "country cfg = ''us''" for cfg
    using that getRandomShows_no_result[OF e2, of 20 "[0]"]
    by (simp add: getCandidates_def expiredEnv_def exampleEnv_def)
  have "selectRandomShow emptyService cfg (Some ''u1'') expiredEnv = None"
    if "showType cfg = Some TMovie" "country cfg = ''us''" for cfg
    by (simp add: selectRandomShow_def cands[OF that])
  then have r4: "discover emptyService (movieConfig None) (Some ''u1'') expiredEnv expiredEnv
     = (Inl (NoContentFound ''No Netflix movie found for us''), emptyService)"
    by (simp add: discover_def movieConfig_def noContentMessage_def)
  from r1 r2 r3 r4 show ?thesis by blast
qed

end
